theory Spec2Isabelle
  imports Main "HOL-Library.Multiset"
begin

section \<open>JavaScript strings\<close>

text \<open>
  The codec of \<^verbatim>\<open>src/api/content.js\<close> works on JavaScript strings. A string is modelled
  as a \<^typ>\<open>string\<close>; each \<^typ>\<open>char\<close> stands for one UTF-16 code unit in the range
  0..255. The white space of \<^verbatim>\<open>trim()\<close> and of the regular expression class
  \<^verbatim>\<open>\s\<close> in that range is TAB, LF, VT, FF, CR, SPACE and NBSP.
\<close>

definition is_ws :: "char \<Rightarrow> bool" where
  "is_ws c = (c = CHR 0x09 \<or> c = CHR 0x0A \<or> c = CHR 0x0B \<or> c = CHR 0x0C \<or> c = CHR 0x0D
     \<or> c = CHR 0x20 \<or> c = CHR 0xA0)"

text \<open>\<^verbatim>\<open>s.trim()\<close>\<close>

definition trim :: "string \<Rightarrow> string" where
  "trim s = rev (dropWhile is_ws (rev (dropWhile is_ws s)))"

text \<open>\<^verbatim>\<open>s.search(/\S/)\<close>: the index of the first character that is not white space, or -1.\<close>

definition search_S :: "string \<Rightarrow> int" where
  "search_S s = (if list_all is_ws s then - 1 else int (length (takeWhile is_ws s)))"

definition startsWith :: "string \<Rightarrow> string \<Rightarrow> bool" where
  "startsWith s p = (take (length p) s = p)"

definition endsWith :: "string \<Rightarrow> string \<Rightarrow> bool" where
  "endsWith s p = (length p \<le> length s \<and> drop (length s - length p) s = p)"

definition includes_char :: "string \<Rightarrow> char \<Rightarrow> bool" where
  "includes_char s c = (c \<in> set s)"

definition indexOf :: "string \<Rightarrow> char \<Rightarrow> int" where
  "indexOf s c = (if c \<in> set s then int (length (takeWhile (\<lambda>x. x \<noteq> c) s)) else - 1)"

text \<open>\<^verbatim>\<open>s.slice(a, b)\<close> and \<^verbatim>\<open>s.slice(a)\<close>: a negative index counts from the end.\<close>

definition slice :: "string \<Rightarrow> int \<Rightarrow> int \<Rightarrow> string" where
  "slice s a b =
     (let len = int (length s);
          lo = (if a < 0 then max (len + a) 0 else min a len);
          hi = (if b < 0 then max (len + b) 0 else min b len)
      in take (nat (hi - lo)) (drop (nat lo) s))"

definition slice_from :: "string \<Rightarrow> int \<Rightarrow> string" where
  "slice_from s a = slice s a (int (length s))"

text \<open>\<^verbatim>\<open>s.split(c)\<close> for a one-character separator: never the empty array.\<close>

fun split_js :: "char \<Rightarrow> string \<Rightarrow> string list" where
  "split_js c [] = [[]]"
| "split_js c (x # xs) =
     (if x = c then [] # split_js c xs
      else (case split_js c xs of [] \<Rightarrow> [[x]] | p # ps \<Rightarrow> (x # p) # ps))"

text \<open>\<^verbatim>\<open>parts.join(sep)\<close>\<close>

fun join_js :: "string \<Rightarrow> string list \<Rightarrow> string" where
  "join_js sep [] = []"
| "join_js sep [p] = p"
| "join_js sep (p # q # ps) = p @ sep @ join_js sep (q # ps)"

text \<open>
  \<^verbatim>\<open>s.replace(/^["']|["']$/g, '')\<close>: the global replacement removes a quote character at
  the start when there is one, and a quote character at the end of what is left when
  there is one. The two alternatives are tried independently of each other.
\<close>

definition is_quote :: "char \<Rightarrow> bool" where
  "is_quote c = (c = CHR 0x22 \<or> c = CHR 0x27)"

definition strip_quotes :: "string \<Rightarrow> string" where
  "strip_quotes s =
     (let s1 = (case s of [] \<Rightarrow> [] | c # cs \<Rightarrow> if is_quote c then cs else s)
      in if s1 \<noteq> [] \<and> is_quote (last s1) then butlast s1 else s1)"

text \<open>The decimal numeral of a number, as \<^verbatim>\<open>String(n)\<close> writes it.\<close>

fun show_nat :: "nat \<Rightarrow> string" where
  "show_nat n =
     (if n < 10 then [''0123456789'' ! n]
      else show_nat (n div 10) @ [''0123456789'' ! (n mod 10)])"

declare show_nat.simps [simp del]

definition is_digit :: "char \<Rightarrow> bool" where
  "is_digit c = (48 \<le> (of_char c :: nat) \<and> (of_char c :: nat) \<le> 57)"

definition dec_val :: "string \<Rightarrow> nat" where
  "dec_val s = foldl (\<lambda>n c. 10 * n + (of_char c - 48)) 0 s"

section \<open>JavaScript values and objects\<close>

text \<open>
  The four value shapes of the codec: \<^verbatim>\<open>null\<close>, a string, an array, a plain object.
  An object is the list of its own enumerable properties in the order of their creation;
  assigning to a property that exists keeps its place.
\<close>

datatype jsval = JNull | JStr string | JArr "jsval list" | JObj "(string \<times> jsval) list"

type_synonym jsobj = "(string \<times> jsval) list"

datatype error = TypeError

text \<open>
  An array index is a property name that is the canonical numeral of a number below
  \<open>2^32 - 1\<close>.
\<close>

definition is_array_index :: "string \<Rightarrow> bool" where
  "is_array_index k =
     (k \<noteq> [] \<and> list_all is_digit k \<and> show_nat (dec_val k) = k \<and> dec_val k < 4294967295)"

text \<open>
  \<^verbatim>\<open>Object.entries(obj)\<close> of a plain object: the properties whose names are array indices
  come first, in ascending numeric order, then the other properties in the order of
  their creation.
\<close>

definition entries :: "jsobj \<Rightarrow> (string \<times> jsval) list" where
  "entries obj =
     sort_key (\<lambda>p. dec_val (fst p)) (filter (\<lambda>p. is_array_index (fst p)) obj)
     @ filter (\<lambda>p. \<not> is_array_index (fst p)) obj"

definition keys :: "jsobj \<Rightarrow> string list" where
  "keys obj = map fst (entries obj)"

text \<open>
  \<^verbatim>\<open>obj[k] = v\<close> on an object created by \<^verbatim>\<open>{}\<close>. The name \<^verbatim>\<open>__proto__\<close> is
  the accessor inherited from \<^verbatim>\<open>Object.prototype\<close>: the assignment runs its setter and
  creates no own property.
\<close>

definition obj_set :: "jsobj \<Rightarrow> string \<Rightarrow> jsval \<Rightarrow> jsobj" where
  "obj_set obj k v =
     (if k = ''__proto__'' then obj
      else if k \<in> fst ` set obj
        then map (\<lambda>p. if fst p = k then (k, v) else p) obj
      else obj @ [(k, v)])"

section \<open>parseYAML\<close>

record pstate =
  result :: jsobj
  currentKey :: "string option"
  currentList :: "jsval list option"
  currentListItem :: "jsobj option"
  inMultilineString :: bool
  multilineKey :: "string option"
  multilineContent :: string
  indentLevel :: int

definition init_state :: pstate where
  "init_state = \<lparr> result = [], currentKey = None, currentList = None,
     currentListItem = None, inMultilineString = False, multilineKey = None,
     multilineContent = [], indentLevel = 0 \<rparr>"

text \<open>A property name that is \<^verbatim>\<open>null\<close> is converted to the string \<^verbatim>\<open>"null"\<close>.\<close>

definition prop_name :: "string option \<Rightarrow> string" where
  "prop_name k = (case k of None \<Rightarrow> ''null'' | Some s \<Rightarrow> s)"

text \<open>\<^verbatim>\<open>if (currentKey)\<close>: neither \<^verbatim>\<open>null\<close> nor the empty string.\<close>

definition truthy_key :: "string option \<Rightarrow> bool" where
  "truthy_key k = (case k of None \<Rightarrow> False | Some s \<Rightarrow> s \<noteq> [])"

text \<open>
  \<^verbatim>\<open>currentList.push(v)\<close> and \<^verbatim>\<open>currentListItem[k] = v\<close> raise a TypeError when the
  variable is \<^verbatim>\<open>null\<close>.
\<close>

definition push :: "pstate \<Rightarrow> jsval \<Rightarrow> error + pstate" where
  "push s v =
     (case currentList s of
        None \<Rightarrow> Inl TypeError
      | Some l \<Rightarrow> Inr (s\<lparr>currentList := Some (l @ [v])\<rparr>))"

definition set_item :: "pstate \<Rightarrow> string \<Rightarrow> string \<Rightarrow> error + pstate" where
  "set_item s k v =
     (case currentListItem s of
        None \<Rightarrow> Inl TypeError
      | Some it \<Rightarrow> Inr (s\<lparr>currentListItem := Some (obj_set it k (JStr v))\<rparr>))"

text \<open>
  \<^verbatim>\<open>const [key, ...valueParts] = content.split(':')\<close>, then
  \<^verbatim>\<open>currentListItem[key.trim()] = valueParts.join(':').trim().replace(...)\<close>.
\<close>

definition set_field :: "pstate \<Rightarrow> string \<Rightarrow> error + pstate" where
  "set_field s content =
     (case split_js CHR '':'' content of
        [] \<Rightarrow> Inl TypeError
      | key # valueParts \<Rightarrow>
          set_item s (trim key) (strip_quotes (trim (join_js '':'' valueParts))))"

text \<open>Lines 165 to 182: a line whose trimmed text starts with \<^verbatim>\<open>"- "\<close>.\<close>

definition step_list_item :: "pstate \<Rightarrow> string \<Rightarrow> error + pstate" where
  "step_list_item s content =
     (let s1 = (if currentList s = None then s\<lparr>currentList := Some []\<rparr> else s) in
      if includes_char content CHR '':'' then
        set_field (if currentListItem s1 = None then s1\<lparr>currentListItem := Some []\<rparr> else s1)
          content
      else
        (case (case currentListItem s1 of
                 None \<Rightarrow> Inr s1
               | Some it \<Rightarrow>
                   if it \<noteq> [] then
                     (case push s1 (JObj it) of
                        Inl e \<Rightarrow> Inl e
                      | Inr s2 \<Rightarrow> Inr (s2\<lparr>currentListItem := Some []\<rparr>))
                   else Inr s1) of
           Inl e \<Rightarrow> Inl e
         | Inr s3 \<Rightarrow> push s3 (JObj [(''text'', JStr (strip_quotes content))])))"

text \<open>Lines 194 to 203: a line without indentation that holds a colon closes the list.\<close>

definition close_list :: "pstate \<Rightarrow> error + pstate" where
  "close_list s =
     (case (case currentListItem s of
              None \<Rightarrow> Inr s
            | Some it \<Rightarrow>
                if it \<noteq> [] then
                  (case push s (JObj it) of
                     Inl e \<Rightarrow> Inl e
                   | Inr s1 \<Rightarrow> Inr (s1\<lparr>currentListItem := None\<rparr>))
                else Inr s) of
        Inl e \<Rightarrow> Inl e
      | Inr s2 \<Rightarrow>
          Inr ((if truthy_key (currentKey s2)
                then (case currentList s2 of
                        None \<Rightarrow> s2\<lparr>result := obj_set (result s2) (prop_name (currentKey s2)) JNull\<rparr>
                      | Some l \<Rightarrow> s2\<lparr>result := obj_set (result s2) (prop_name (currentKey s2)) (JArr l)\<rparr>)
                else s2)\<lparr>currentList := None\<rparr>))"

text \<open>Lines 205 to 215: a \<^verbatim>\<open>key: value\<close> line.\<close>

definition step_key_value :: "pstate \<Rightarrow> string \<Rightarrow> pstate" where
  "step_key_value s trimmed =
     (if includes_char trimmed CHR '':'' \<and> \<not> startsWith trimmed ''-'' then
        (let colonIndex = indexOf trimmed CHR '':'';
             key = trim (slice trimmed 0 colonIndex);
             v = strip_quotes (trim (slice_from trimmed (colonIndex + 1)))
         in if v = [] \<and> \<not> endsWith trimmed ''|'' then s\<lparr>currentKey := Some key\<rparr>
            else s\<lparr>result := obj_set (result s) key (JStr v)\<rparr>)
      else s)"

text \<open>Lines 157 to 215: the rest of the loop body, once a block scalar is dealt with.\<close>

definition step_rest :: "pstate \<Rightarrow> string \<Rightarrow> string \<Rightarrow> error + pstate" where
  "step_rest s line trimmed =
     (if endsWith trimmed ''|'' then
        Inr (s\<lparr>multilineKey := Some (trim (remove1 CHR '':'' (slice trimmed 0 (- 1)))),
               multilineContent := [],
               inMultilineString := True,
               indentLevel := search_S line\<rparr>)
      else if startsWith trimmed ''- '' then step_list_item s (slice_from trimmed 2)
      else
        (let leadingSpaces = search_S line in
         if leadingSpaces \<ge> 4 \<and> currentListItem s \<noteq> None then
           (if includes_char trimmed CHR '':'' then set_field s trimmed else Inr s)
         else
           (case (if currentList s \<noteq> None \<and> leadingSpaces = 0 \<and> includes_char trimmed CHR '':''
                  then close_list s else Inr s) of
              Inl e \<Rightarrow> Inl e
            | Inr s1 \<Rightarrow> Inr (step_key_value s1 trimmed))))"

text \<open>Lines 136 to 215: the body of the loop, for one line.\<close>

definition step :: "pstate \<Rightarrow> string \<Rightarrow> error + pstate" where
  "step s line =
     (let trimmed = trim line in
      if trimmed = [] \<or> startsWith trimmed ''#'' then
        Inr (if inMultilineString s \<and> trimmed = []
             then s\<lparr>multilineContent := multilineContent s @ [CHR 0x0A]\<rparr> else s)
      else if inMultilineString s \<and> search_S line > indentLevel s then
        Inr (s\<lparr>multilineContent :=
                 multilineContent s @ (if multilineContent s \<noteq> [] then [CHR 0x0A] else []) @ trimmed\<rparr>)
      else
        step_rest
          (if inMultilineString s
           then s\<lparr>result := obj_set (result s) (prop_name (multilineKey s))
                              (JStr (trim (multilineContent s))),
                  inMultilineString := False\<rparr>
           else s)
          line trimmed)"

fun run :: "pstate \<Rightarrow> string list \<Rightarrow> error + pstate" where
  "run s [] = Inr s"
| "run s (line # lines) = (case step s line of Inl e \<Rightarrow> Inl e | Inr s' \<Rightarrow> run s' lines)"

text \<open>Lines 218 to 227: what is done after the loop.\<close>

definition finish :: "pstate \<Rightarrow> error + jsobj" where
  "finish s =
     (case currentList s of
        None \<Rightarrow> Inr (result s)
      | Some l0 \<Rightarrow>
          (case (case currentListItem s of
                   None \<Rightarrow> Inr s
                 | Some it \<Rightarrow> if it \<noteq> [] then push s (JObj it) else Inr s) of
             Inl e \<Rightarrow> Inl e
           | Inr s1 \<Rightarrow>
               Inr (if truthy_key (currentKey s1)
                    then (case currentList s1 of
                            None \<Rightarrow> obj_set (result s1) (prop_name (currentKey s1)) JNull
                          | Some l \<Rightarrow> obj_set (result s1) (prop_name (currentKey s1)) (JArr l))
                    else result s1)))"

definition parseYAML :: "string \<Rightarrow> error + jsobj" where
  "parseYAML text =
     (case run init_state (split_js CHR 0x0A text) of
        Inl e \<Rightarrow> Inl e
      | Inr s \<Rightarrow> finish s)"

section \<open>toYAML\<close>

text \<open>
  A value inside a template literal is converted to a string: \<^verbatim>\<open>null\<close> gives
  \<^verbatim>\<open>"null"\<close>, an array the join of its elements with commas (where \<^verbatim>\<open>null\<close>
  gives the empty string), a plain object \<^verbatim>\<open>"[object Object]"\<close>. An object with an own
  property \<^verbatim>\<open>toString\<close> that is no function cannot be converted: a TypeError.
\<close>

fun to_str :: "jsval \<Rightarrow> error + string"
  and to_str_list :: "jsval list \<Rightarrow> error + string list" where
  "to_str JNull = Inr ''null''"
| "to_str (JStr s) = Inr s"
| "to_str (JArr xs) =
     (case to_str_list xs of Inl e \<Rightarrow> Inl e | Inr ps \<Rightarrow> Inr (join_js '','' ps))"
| "to_str (JObj obj) =
     (if ''toString'' \<in> fst ` set obj then Inl TypeError else Inr ''[object Object]'')"
| "to_str_list [] = Inr []"
| "to_str_list (x # xs) =
     (case (case x of JNull \<Rightarrow> Inr [] | _ \<Rightarrow> to_str x) of
        Inl e \<Rightarrow> Inl e
      | Inr p \<Rightarrow> (case to_str_list xs of Inl e \<Rightarrow> Inl e | Inr ps \<Rightarrow> Inr (p # ps)))"

text \<open>
  \<^verbatim>\<open>Object.entries(item)\<close> for a list element with \<^verbatim>\<open>typeof item === 'object'\<close>:
  a TypeError on \<^verbatim>\<open>null\<close>, the indices and elements of an array, the entries
  of an object.
\<close>

definition entries_of :: "jsval \<Rightarrow> error + (string \<times> jsval) list" where
  "entries_of item =
     (case item of
        JNull \<Rightarrow> Inl TypeError
      | JStr s \<Rightarrow> Inr (zip (map show_nat [0..<length s]) (map (\<lambda>c. JStr [c]) s))
      | JArr xs \<Rightarrow> Inr (zip (map show_nat [0..<length xs]) xs)
      | JObj obj \<Rightarrow> Inr (entries obj))"

text \<open>\<^verbatim>\<open>'  '.repeat(indent)\<close>\<close>

definition spaces_of :: "nat \<Rightarrow> string" where
  "spaces_of indent = concat (replicate indent ''  '')"

text \<open>Lines 244 to 246: the fields of a record after the first.\<close>

fun emit_fields :: "string \<Rightarrow> (string \<times> jsval) list \<Rightarrow> error + string" where
  "emit_fields spaces [] = Inr []"
| "emit_fields spaces ((k, v) # es) =
     (case to_str v of
        Inl e \<Rightarrow> Inl e
      | Inr s \<Rightarrow>
          (case emit_fields spaces es of
             Inl e \<Rightarrow> Inl e
           | Inr r \<Rightarrow> Inr (spaces @ ''    '' @ k @ '': '' @ [CHR 0x22] @ s @ [CHR 0x22, CHR 0x0A] @ r)))"

text \<open>Lines 240 to 250: one element of a list.\<close>

definition emit_item :: "string \<Rightarrow> jsval \<Rightarrow> error + string" where
  "emit_item spaces item =
     (case item of
        JStr s \<Rightarrow> Inr (spaces @ ''  - '' @ [CHR 0x22] @ s @ [CHR 0x22, CHR 0x0A])
      | _ \<Rightarrow>
          (case entries_of item of
             Inl e \<Rightarrow> Inl e
           | Inr [] \<Rightarrow> Inr []
           | Inr ((k, v) # es) \<Rightarrow>
               (case to_str v of
                  Inl e \<Rightarrow> Inl e
                | Inr s \<Rightarrow>
                    (case emit_fields spaces es of
                       Inl e \<Rightarrow> Inl e
                     | Inr r \<Rightarrow>
                         Inr (spaces @ ''  - '' @ k @ '': '' @ [CHR 0x22] @ s @ [CHR 0x22, CHR 0x0A] @ r)))))"

fun emit_items :: "string \<Rightarrow> jsval list \<Rightarrow> error + string" where
  "emit_items spaces [] = Inr []"
| "emit_items spaces (item # items) =
     (case emit_item spaces item of
        Inl e \<Rightarrow> Inl e
      | Inr a \<Rightarrow> (case emit_items spaces items of Inl e \<Rightarrow> Inl e | Inr b \<Rightarrow> Inr (a @ b)))"

text \<open>Lines 255 to 258: a string with a newline, as a block scalar.\<close>

definition emit_block :: "string \<Rightarrow> string \<Rightarrow> string \<Rightarrow> string" where
  "emit_block spaces key s =
     spaces @ key @ '': |'' @ [CHR 0x0A]
     @ concat (map (\<lambda>line. spaces @ ''  '' @ line @ [CHR 0x0A]) (split_js CHR 0x0A s))"

function toYAML :: "jsobj \<Rightarrow> nat \<Rightarrow> error + string"
  and toYAML_loop :: "(string \<times> jsval) list \<Rightarrow> nat \<Rightarrow> error + string" where
  "toYAML obj indent = toYAML_loop (entries obj) indent"
| "toYAML_loop [] indent = Inr []"
| "toYAML_loop ((key, val) # rest) indent =
     (case (case val of
              JNull \<Rightarrow> Inr []
            | JArr items \<Rightarrow>
                (case emit_items (spaces_of indent) items of
                   Inl e \<Rightarrow> Inl e
                 | Inr r \<Rightarrow> Inr (spaces_of indent @ key @ '':'' @ [CHR 0x0A] @ r))
            | JObj obj \<Rightarrow>
                (case toYAML obj (indent + 1) of
                   Inl e \<Rightarrow> Inl e
                 | Inr r \<Rightarrow> Inr (spaces_of indent @ key @ '':'' @ [CHR 0x0A] @ r))
            | JStr s \<Rightarrow>
                Inr (if includes_char s CHR 0x0A then emit_block (spaces_of indent) key s
                     else spaces_of indent @ key @ '': '' @ [CHR 0x22] @ s @ [CHR 0x22, CHR 0x0A])) of
        Inl e \<Rightarrow> Inl e
      | Inr chunk \<Rightarrow>
          (case toYAML_loop rest indent of Inl e \<Rightarrow> Inl e | Inr r \<Rightarrow> Inr (chunk @ r)))"
  by pat_completeness auto
termination
proof -
  have se: "size_list f (entries obj) = size_list f obj" for f :: "string \<times> jsval \<Rightarrow> nat" and obj
  proof -
    have m: "mset (entries obj) = mset obj"
      by (simp add: entries_def)
    have "sum_list (map f (entries obj)) = sum_mset (image_mset f (mset (entries obj)))"
      by (metis mset_map sum_mset_sum_list)
    also have "\<dots> = sum_mset (image_mset f (mset obj))"
      by (simp only: m)
    also have "\<dots> = sum_list (map f obj)"
      by (metis mset_map sum_mset_sum_list)
    finally have s: "sum_list (map f (entries obj)) = sum_list (map f obj)" .
    have l: "length (entries obj) = length obj"
      using m by (rule mset_eq_length)
    show ?thesis
      by (simp only: size_list_conv_sum_list s l)
  qed
  show ?thesis
    by (relation "measure (\<lambda>x. case x of
          Inl (obj, _) \<Rightarrow> 2 * size_list (size_prod (\<lambda>_. 0) size) obj + 1
        | Inr (es, _) \<Rightarrow> 2 * size_list (size_prod (\<lambda>_. 0) size) es)")
      (simp_all add: se)
qed

section \<open>Frontmatter\<close>

text \<open>
  \<^verbatim>\<open>text.match(/^---\n([\s\S]*?)\n---\n([\s\S]*)$/)\<close>. The text has to start with the
  opening delimiter line; the first group is lazy, so it ends at the first
  \<^verbatim>\<open>"\n---\n"\<close> after the opening line; the second group is the rest of the text.
\<close>

fun find_sub :: "string \<Rightarrow> string \<Rightarrow> (string \<times> string) option" where
  "find_sub p [] = (if p = [] then Some ([], []) else None)"
| "find_sub p (c # cs) =
     (if take (length p) (c # cs) = p then Some ([], drop (length p) (c # cs))
      else (case find_sub p cs of None \<Rightarrow> None | Some (a, b) \<Rightarrow> Some (c # a, b)))"

definition match_frontmatter :: "string \<Rightarrow> (string \<times> string) option" where
  "match_frontmatter text =
     (if startsWith text (''---'' @ [CHR 0x0A])
      then find_sub ([CHR 0x0A] @ ''---'' @ [CHR 0x0A]) (drop 4 text)
      else None)"

record document =
  data :: jsobj
  content :: string

definition parseFrontmatter :: "string \<Rightarrow> error + document" where
  "parseFrontmatter text =
     (case match_frontmatter text of
        None \<Rightarrow> Inr \<lparr> data = [], content = text \<rparr>
      | Some (m1, m2) \<Rightarrow>
          (case parseYAML m1 of
             Inl e \<Rightarrow> Inl e
           | Inr d \<Rightarrow> Inr \<lparr> data = d, content = trim m2 \<rparr>))"

definition toMarkdown :: "jsobj \<Rightarrow> string \<Rightarrow> error + string" where
  "toMarkdown d c =
     (case toYAML d 0 of
        Inl e \<Rightarrow> Inl e
      | Inr y \<Rightarrow> Inr (''---'' @ [CHR 0x0A] @ y @ ''---'' @ [CHR 0x0A, CHR 0x0A] @ c))"

section \<open>Plain keys and plain values\<close>

text \<open>
  The inputs of the round-trip and key-order properties. A plain key is not empty, has
  no white space at either end, holds neither a colon nor a newline, does not start a
  comment or a list item, and is not the accessor name \<^verbatim>\<open>__proto__\<close>. A plain value is
  a string that is not empty and holds no newline.
\<close>

definition plain_key :: "string \<Rightarrow> bool" where
  "plain_key k = (k \<noteq> [] \<and> \<not> is_ws (hd k) \<and> \<not> is_ws (last k) \<and> CHR '':'' \<notin> set k
     \<and> CHR 0x0A \<notin> set k \<and> hd k \<noteq> CHR ''#'' \<and> hd k \<noteq> CHR ''-'' \<and> k \<noteq> ''__proto__'')"

definition plain_value :: "string \<Rightarrow> bool" where
  "plain_value v = (v \<noteq> [] \<and> CHR 0x0A \<notin> set v)"

text \<open>The line \<^verbatim>\<open>key: "value"\<close> of a pair.\<close>

definition flat_line :: "string \<times> string \<Rightarrow> string" where
  "flat_line p = fst p @ '': '' @ [CHR 0x22] @ snd p @ [CHR 0x22]"

text \<open>
  The order in which the properties of an object are enumerated, on any list of pairs:
  the array indices in ascending numeric order, then the other names in the order of
  the list.
\<close>

definition enum_order :: "(string \<times> 'a) list \<Rightarrow> (string \<times> 'a) list" where
  "enum_order kvs =
     sort_key (\<lambda>p. dec_val (fst p)) (filter (\<lambda>p. is_array_index (fst p)) kvs)
     @ filter (\<lambda>p. \<not> is_array_index (fst p)) kvs"

section \<open>The supported subset\<close>

text \<open>
  The values of the round-trip property. A block value is a string with a newline whose
  lines are empty or have no white space at either end and do not start a comment, and
  whose first and last lines are not empty. A record field has a plain key and a string
  value without a newline. A supported value is a plain value, a block value, or a list
  of one record with at least one field, with distinct keys, its fields in the order of
  their enumeration.
\<close>

definition block_line :: "string \<Rightarrow> bool" where
  "block_line l = (l = [] \<or> (\<not> is_ws (hd l) \<and> \<not> is_ws (last l) \<and> hd l \<noteq> CHR ''#''))"

definition block_value :: "string \<Rightarrow> bool" where
  "block_value s =
     (CHR 0x0A \<in> set s \<and> list_all block_line (split_js CHR 0x0A s)
      \<and> hd (split_js CHR 0x0A s) \<noteq> [] \<and> last (split_js CHR 0x0A s) \<noteq> [])"

definition plain_field :: "string \<times> jsval \<Rightarrow> bool" where
  "plain_field p =
     (plain_key (fst p) \<and> (case snd p of JStr w \<Rightarrow> CHR 0x0A \<notin> set w | _ \<Rightarrow> False))"

fun supported_value :: "jsval \<Rightarrow> bool" where
  "supported_value (JStr s) = (plain_value s \<or> block_value s)"
| "supported_value (JArr [JObj flds]) =
     (flds \<noteq> [] \<and> distinct (map fst flds) \<and> list_all plain_field flds
      \<and> entries flds = flds)"
| "supported_value v = False"

text \<open>
  In the order of enumeration, a block value is not the last entry of the mapping, and
  does not come directly after a list.
\<close>

definition is_block :: "jsval \<Rightarrow> bool" where
  "is_block v = (case v of JStr s \<Rightarrow> CHR 0x0A \<in> set s | _ \<Rightarrow> False)"

definition is_list :: "jsval \<Rightarrow> bool" where
  "is_list v = (case v of JArr xs \<Rightarrow> True | _ \<Rightarrow> False)"

fun layout_ok :: "(string \<times> jsval) list \<Rightarrow> bool" where
  "layout_ok [] = True"
| "layout_ok [p] = (\<not> is_block (snd p))"
| "layout_ok (p # q # es) = (\<not> (is_list (snd p) \<and> is_block (snd q)) \<and> layout_ok (q # es))"

definition supported_mapping :: "jsobj \<Rightarrow> bool" where
  "supported_mapping m =
     (distinct (map fst m)
      \<and> list_all (\<lambda>p. plain_key (fst p) \<and> supported_value (snd p)) (entries m)
      \<and> layout_ok (entries m))"

section \<open>The lines of a serialized mapping\<close>

text \<open>
  The lines that \<^const>\<open>toYAML\<close> writes at indentation 0 for an entry with a supported
  value, and the text made of a list of lines.
\<close>

definition field_text :: "jsval \<Rightarrow> string" where
  "field_text v = (case v of JStr w \<Rightarrow> w | _ \<Rightarrow> [])"

definition kv_line :: "string \<times> jsval \<Rightarrow> string" where
  "kv_line p = fst p @ '': '' @ [CHR 0x22] @ field_text (snd p) @ [CHR 0x22]"

definition block_text_line :: "string \<Rightarrow> string" where
  "block_text_line l = ''  '' @ l"

definition first_field_line :: "string \<times> jsval \<Rightarrow> string" where
  "first_field_line p = ''  - '' @ kv_line p"

definition field_line :: "string \<times> jsval \<Rightarrow> string" where
  "field_line p = ''    '' @ kv_line p"

fun entry_lines :: "string \<times> jsval \<Rightarrow> string list" where
  "entry_lines (k, JStr s) =
     (if CHR 0x0A \<in> set s
      then (k @ '': |'') # map block_text_line (split_js CHR 0x0A s)
      else [kv_line (k, JStr s)])"
| "entry_lines (k, JArr [JObj (p # fs)]) =
     (k @ '':'') # first_field_line p # map field_line fs"
| "entry_lines (k, v) = []"

definition text_of_lines :: "string list \<Rightarrow> string" where
  "text_of_lines ls = concat (map (\<lambda>l. l @ [CHR 0x0A]) ls)"

section \<open>States of the parser between two entries\<close>

text \<open>
  What a line without indentation does to the state before it is read as a key: an
  open block scalar is stored, then an open list is closed and stored. Between two
  entries of a supported mapping the state has an open block scalar, or an open list
  with one record in progress, or neither.
\<close>

definition settle :: "pstate \<Rightarrow> pstate" where
  "settle s =
     (let s1 = (if inMultilineString s
                then s\<lparr>result := obj_set (result s) (prop_name (multilineKey s))
                                   (JStr (trim (multilineContent s))),
                       inMultilineString := False\<rparr>
                else s)
      in case currentList s1 of
           None \<Rightarrow> s1
         | Some l \<Rightarrow> (case close_list s1 of Inl e \<Rightarrow> s1 | Inr s2 \<Rightarrow> s2))"

definition wf_state :: "pstate \<Rightarrow> bool" where
  "wf_state s =
     (case currentList s of
        None \<Rightarrow> currentListItem s = None \<and> (\<not> inMultilineString s \<or> indentLevel s = 0)
      | Some l \<Rightarrow> l = [] \<and> \<not> inMultilineString s \<and> truthy_key (currentKey s)
          \<and> (case currentListItem s of None \<Rightarrow> False | Some it \<Rightarrow> it \<noteq> []))"

section \<open>Lines of a text\<close>










section \<open>Evaluation and totality\<close>

lemmas str_defs = trim_def is_ws_def startsWith_def endsWith_def includes_char_def indexOf_def
  slice_def slice_from_def search_S_def is_quote_def strip_quotes_def

lemmas parse_defs = parseYAML_def step_def step_rest_def step_key_value_def close_list_def
  step_list_item_def set_field_def set_item_def push_def finish_def init_state_def obj_set_def
  truthy_key_def prop_name_def

lemmas obj_defs = entries_def keys_def is_array_index_def is_digit_def dec_val_def

lemmas yaml_defs = emit_item_def entries_of_def emit_block_def spaces_of_def

lemma split_js_not_Nil: "split_js c s \<noteq> []"
  by (induction s) (auto split: list.splits)

lemma set_field_total:
  "currentListItem s \<noteq> None \<Longrightarrow> \<exists>s'. set_field s x = Inr s' \<and> currentList s' = currentList s"
  using split_js_not_Nil [of "CHR '':''" x]
  by (auto simp: set_field_def set_item_def split: list.splits)

lemma step_list_item_total: "\<exists>s'. step_list_item s x = Inr s'"
  using set_field_total [of "(if currentList s = None then s\<lparr>currentList := Some []\<rparr> else s)\<lparr>currentListItem := Some []\<rparr>" x]
    set_field_total [of "(if currentList s = None then s\<lparr>currentList := Some []\<rparr> else s)" x]
  by (auto simp: step_list_item_def push_def Let_def split: option.splits)

lemma close_list_total: "currentList s \<noteq> None \<Longrightarrow> \<exists>s'. close_list s = Inr s'"
  by (auto simp: close_list_def push_def split: option.splits)

lemma step_rest_total: "\<exists>s'. step_rest s line t = Inr s'"
  using step_list_item_total [of s "slice_from t 2"] close_list_total [of s]
    set_field_total [of s t]
  by (auto simp: step_rest_def Let_def)

lemma step_total: "\<exists>s'. step s line = Inr s'"
  using step_rest_total by (simp add: step_def Let_def)

lemma run_total: "\<exists>s'. run s ls = Inr s'"
proof (induction ls arbitrary: s)
  case Nil
  show ?case by simp
next
  case (Cons l ls)
  obtain s1 where "step s l = Inr s1" using step_total by blast
  with Cons show ?case by simp
qed

lemma finish_total: "\<exists>m. finish s = Inr m"
  by (auto simp: finish_def push_def split: option.splits)

text \<open>
  Claim C3. For every input string the parser returns, and what it returns is a
  mapping: no line of any shape makes \<^const>\<open>push\<close> or \<^const>\<open>set_item\<close> meet a
  \<^verbatim>\<open>null\<close>, so no TypeError is raised, and the loop runs once over the lines of the
  text. The value returned is the object \<^verbatim>\<open>result\<close>, never a string or an array.
\<close>

theorem parseYAML_total: "\<exists>m. parseYAML text = Inr m"
proof -
  obtain s where "run init_state (split_js CHR 0x0A text) = Inr s"
    using run_total by blast
  then show ?thesis
    using finish_total [of s] by (simp add: parseYAML_def)
qed

text \<open>
  Claim C2: a \<^verbatim>\<open>- key: value\<close> line that starts a new record first appends the
  record in progress to the list, so that the input with the two records of
  \<^verbatim>\<open>stats\<close> gives a list of two records. In the code, lines 167 to 172 do not
  append: they keep writing into the same \<^verbatim>\<open>currentListItem\<close>. On the input of the
  claim the second record overwrites the fields of the first, and \<^verbatim>\<open>stats\<close> is a
  list of one record.
\<close>

theorem parseYAML_stats_example:
  \<open>parseYAML ''stats:\<newline>  - number: "500"\<newline>    label: "Workouts"\<newline>  - number: "10"\<newline>    label: "Years"''
     = Inr [(''stats'', JArr [JObj [(''number'', JStr ''10''), (''label'', JStr ''Years'')]])]\<close>
  by (simp add: str_defs parse_defs)

text \<open>
  Claim C6: inside a block scalar a blank line adds a newline to the text collected so
  far, and the input \<^verbatim>\<open>bio: |\<close> with its three lines gives \<^verbatim>\<open>bio\<close> the two
  sentences with an empty line between them. In the code the block is stored only when
  a later line at or below the indentation of its \<^verbatim>\<open>key: |\<close> line is read: on the
  input of the claim, where the block runs to the end of the text, nothing is stored;
  with one more line after the block the value is the one the claim gives.
\<close>

theorem parseYAML_bio_example:
  \<open>parseYAML ''bio: |\<newline>  Line one.\<newline>\<newline>  Line two.'' = Inr []
   \<and> parseYAML ''bio: |\<newline>  Line one.\<newline>\<newline>  Line two.\<newline>name: x''
       = Inr [(''bio'', JStr ''Line one.\<newline>\<newline>Line two.''), (''name'', JStr ''x'')]\<close>
  by (simp add: str_defs parse_defs)

text \<open>
  Claim C4: \<^const>\<open>toYAML\<close> returns a string for every tree of the four value shapes,
  also where \<^verbatim>\<open>null\<close> is an element of a list. In the code a \<^verbatim>\<open>null\<close> that is
  the value of a key is skipped, but a \<^verbatim>\<open>null\<close> that is an element of a list has
  \<^verbatim>\<open>typeof item === 'object'\<close>, and \<^verbatim>\<open>Object.entries(null)\<close> raises a TypeError.
\<close>

theorem toYAML_null_element: "toYAML [(''a'', JArr [JNull])] 0 = Inl TypeError"
  by (simp add: yaml_defs obj_defs)

text \<open>
  Claim C8. For every metadata mapping and every body, \<^const>\<open>toMarkdown\<close> is the opening
  delimiter line, the serialization of the metadata by \<^const>\<open>toYAML\<close>, the closing
  delimiter line, an empty line and the body as it is; where \<^const>\<open>toYAML\<close> raises,
  \<^const>\<open>toMarkdown\<close> raises the same error.
\<close>

theorem toMarkdown_structure:
  "toMarkdown d c =
     map_sum id (\<lambda>y. ''---'' @ [CHR 0x0A] @ y @ ''---'' @ [CHR 0x0A] @ [CHR 0x0A] @ c) (toYAML d 0)"
  by (simp add: toMarkdown_def split: sum.splits)

section \<open>Lines and strings\<close>

lemma dropWhile_hd: "s \<noteq> [] \<Longrightarrow> \<not> P (hd s) \<Longrightarrow> dropWhile P s = s"
  by (cases s) auto

lemma trim_core:
  assumes "a \<noteq> []" "\<not> is_ws (hd a)" "\<not> is_ws (last a)" "list_all is_ws w1" "list_all is_ws w2"
  shows "trim (w1 @ a @ w2) = a"
proof -
  have "dropWhile is_ws (w1 @ a @ w2) = dropWhile is_ws (a @ w2)"
    using assms(4) by (simp add: dropWhile_append2 list_all_iff)
  also have "\<dots> = a @ w2"
    using assms(1,2) by (simp add: dropWhile_hd)
  finally have 1: "dropWhile is_ws (w1 @ a @ w2) = a @ w2" .
  have "dropWhile is_ws (rev w2 @ rev a) = dropWhile is_ws (rev a)"
    by (rule dropWhile_append2) (use assms(5) in \<open>simp add: list_all_iff\<close>)
  also have "\<dots> = rev a"
    using assms(1,3) by (simp add: dropWhile_hd hd_rev)
  finally have 2: "dropWhile is_ws (rev w2 @ rev a) = rev a" .
  show ?thesis
    by (simp add: trim_def 1 2)
qed

lemma trim_Nil: "trim [] = []"
  by (simp add: trim_def)

lemma search_S_core:
  assumes "a \<noteq> []" "\<not> is_ws (hd a)" "list_all is_ws w"
  shows "search_S (w @ a @ r) = int (length w)"
proof -
  have "hd a \<in> set (w @ a @ r)" using assms(1) by simp
  then have 1: "\<not> list_all is_ws (w @ a @ r)"
    using assms(2) by (auto simp: list_all_iff)
  have 2: "takeWhile is_ws (w @ a @ r) = w"
    using assms by (cases a) (simp_all add: takeWhile_append2 list_all_iff)
  show ?thesis
    by (simp only: search_S_def 1 2 if_False)
qed

lemma startsWith_hash: "startsWith s ''#'' \<longleftrightarrow> s \<noteq> [] \<and> hd s = CHR ''#''"
  by (cases s) (auto simp: startsWith_def)

lemma startsWith_dash: "startsWith s ''-'' \<longleftrightarrow> s \<noteq> [] \<and> hd s = CHR ''-''"
  by (cases s) (auto simp: startsWith_def)

lemma startsWith_dash_space_hd: "startsWith s ''- '' \<Longrightarrow> s \<noteq> [] \<and> hd s = CHR ''-''"
  by (cases s) (auto simp: startsWith_def)

lemma startsWith_dash_space: "startsWith (''- '' @ r) ''- ''"
  by (simp add: startsWith_def)

lemma endsWith_bar: "endsWith s ''|'' \<longleftrightarrow> s \<noteq> [] \<and> last s = CHR ''|''"
  by (cases s rule: rev_cases) (auto simp: endsWith_def)

lemma takeWhile_neq: "c \<notin> set a \<Longrightarrow> takeWhile (\<lambda>x. x \<noteq> c) (a @ c # r) = a"
  by (induction a) auto

lemma indexOf_first: "c \<notin> set a \<Longrightarrow> indexOf (a @ c # r) c = int (length a)"
  by (simp add: indexOf_def takeWhile_neq)

lemma slice_take: "slice (a @ r) 0 (int (length a)) = a"
  by (simp add: slice_def Let_def min_def)

lemma slice_from_drop: "slice_from (a @ r) (int (length a)) = r"
  by (simp add: slice_from_def slice_def Let_def min_def)

lemma slice_butlast: "slice s 0 (- 1) = butlast s"
proof -
  have "nat (max (int (length s) + - 1) 0) = length s - 1"
    by (cases s) (simp_all add: max_def)
  then show ?thesis
    by (simp add: slice_def Let_def butlast_conv_take)
qed

lemma strip_quotes_Nil: "strip_quotes [] = []"
  by (simp add: strip_quotes_def)

lemma strip_quotes_dq: "strip_quotes (CHR 0x22 # v @ [CHR 0x22]) = v"
  by (simp add: strip_quotes_def is_quote_def)

lemma strip_quotes_cases:
  "v \<noteq> [] \<Longrightarrow> strip_quotes v =
     (if is_quote (hd v)
      then (if tl v \<noteq> [] \<and> is_quote (last v) then butlast (tl v) else tl v)
      else if is_quote (last v) then butlast v else v)"
  by (cases v) (auto simp: strip_quotes_def)

lemma split_js_line: "c \<notin> set a \<Longrightarrow> split_js c (a @ c # r) = a # split_js c r"
  using split_js_not_Nil [of c] by (induction a) (auto split: list.splits)

lemma split_js_single: "c \<notin> set a \<Longrightarrow> split_js c a = [a]"
  by (induction a) auto

lemma join_split: "join_js [c] (split_js c s) = s"
proof (induction s)
  case Nil
  show ?case by simp
next
  case (Cons x xs)
  show ?case
  proof (cases "split_js c xs")
    case Nil
    with split_js_not_Nil show ?thesis by blast
  next
    case (Cons p ps)
    with Cons.IH show ?thesis
      by (cases ps) auto
  qed
qed

section \<open>One line of the parser\<close>

lemma step_blank: "\<not> inMultilineString s \<Longrightarrow> step s [] = Inr s"
  by (simp add: step_def trim_Nil)

lemma step_header_line:
  assumes s: "\<not> inMultilineString s" "currentList s = None"
    and k: "plain_key k"
  shows "step s (k @ '':'') = Inr (s\<lparr>currentKey := Some k\<rparr>)"
proof -
  let ?t = "k @ '':''"
  from k have k1: "k \<noteq> []" "\<not> is_ws (hd k)" "\<not> is_ws (last k)" "CHR '':'' \<notin> set k"
    "hd k \<noteq> CHR ''#''" "hd k \<noteq> CHR ''-''"
    by (simp_all add: plain_key_def)
  have t: "trim ?t = ?t"
    using trim_core [of ?t "[]" "[]"] k1 by (simp add: is_ws_def)
  have nz: "?t \<noteq> []" by simp
  have hd_t: "hd ?t = hd k" using k1 by simp
  have h1: "\<not> startsWith ?t ''#''"
    unfolding startsWith_hash hd_t using k1 by simp
  have h2: "\<not> endsWith ?t ''|''"
    unfolding endsWith_bar by simp
  have h3: "\<not> startsWith ?t ''- ''"
    using startsWith_dash_space_hd [of ?t] k1 unfolding hd_t by blast
  have h3': "\<not> startsWith ?t ''-''"
    unfolding startsWith_dash hd_t using k1 by simp
  have h4: "search_S ?t = 0"
    using search_S_core [of k "[]" "'':''"] k1 by simp
  have h5: "includes_char ?t CHR '':''"
    by (simp add: includes_char_def)
  have h6: "indexOf ?t CHR '':'' = int (length k)"
    using indexOf_first [of "CHR '':''" k "[]"] k1 by simp
  have h7: "slice ?t 0 (int (length k)) = k"
    by (rule slice_take)
  have h8: "slice_from ?t (int (length k) + 1) = []"
    using slice_from_drop [of "k @ '':''" "[]"] by (simp add: add.commute)
  have h9: "trim k = k"
    using trim_core [of k "[]" "[]"] k1 by simp
  have skv: "step_key_value s ?t = s\<lparr>currentKey := Some k\<rparr>"
    unfolding step_key_value_def Let_def h6 h7 h8 h9 trim_Nil strip_quotes_Nil
    using h5 h3' h2 by simp
  have sr: "step_rest s ?t ?t = Inr (step_key_value s ?t)"
    unfolding step_rest_def Let_def h4
    using h2 h3 s by simp
  show ?thesis
    unfolding step_def Let_def t
    using nz h1 s sr skv by simp
qed

lemma step_plain_item_line:
  assumes s: "\<not> inMultilineString s" "currentList s = None" "currentListItem s = None"
    and w: "list_all is_ws w0" "list_all is_ws w2"
    and v: "v \<noteq> []" "\<not> is_ws (last v)" "last v \<noteq> CHR ''|''" "CHR '':'' \<notin> set v"
  shows "step s (w0 @ ''- '' @ v @ w2)
    = Inr (s\<lparr>currentList := Some [JObj [(''text'', JStr (strip_quotes v))]]\<rparr>)"
proof -
  let ?t = "''- '' @ v"
  have t: "trim (w0 @ ''- '' @ v @ w2) = ?t"
    using trim_core [of ?t w0 w2] v w by (simp add: is_ws_def)
  have nz: "?t \<noteq> []" by simp
  have h1: "\<not> startsWith ?t ''#''"
    unfolding startsWith_hash by simp
  have h2: "\<not> endsWith ?t ''|''"
    unfolding endsWith_bar using v by simp
  have h3: "startsWith ?t ''- ''"
    by (rule startsWith_dash_space)
  have h4: "slice_from ?t 2 = v"
    using slice_from_drop [of "''- ''" v] by simp
  have h5: "\<not> includes_char v CHR '':''"
    using v by (simp add: includes_char_def)
  have sl: "step_list_item s v
    = Inr (s\<lparr>currentList := Some [JObj [(''text'', JStr (strip_quotes v))]]\<rparr>)"
    unfolding step_list_item_def Let_def using h5 s by (simp add: push_def)
  have sr: "step_rest s (w0 @ ''- '' @ v @ w2) ?t = step_list_item s v"
    unfolding step_rest_def using h2 h3 h4 by simp
  show ?thesis
    unfolding step_def Let_def t
    using nz h1 s sr sl by simp
qed

lemma step_record_item_line:
  assumes s: "\<not> inMultilineString s" "currentList s = None" "currentListItem s = None"
    and f: "CHR '':'' \<notin> set f"
    and w: "list_all is_ws w0" "list_all is_ws w1" "list_all is_ws w2"
    and v: "v \<noteq> []" "\<not> is_ws (hd v)" "\<not> is_ws (last v)" "last v \<noteq> CHR ''|''"
  shows "step s (w0 @ ''- '' @ f @ '':'' @ w1 @ v @ w2)
    = Inr (s\<lparr>currentList := Some [],
             currentListItem := Some (obj_set [] (trim f) (JStr (strip_quotes v)))\<rparr>)"
proof -
  let ?c = "f @ '':'' @ w1 @ v"
  let ?t = "''- '' @ ?c"
  have t: "trim (w0 @ ''- '' @ f @ '':'' @ w1 @ v @ w2) = ?t"
    using trim_core [of ?t w0 w2] v w by (simp add: is_ws_def)
  have nz: "?t \<noteq> []" by simp
  have h1: "\<not> startsWith ?t ''#''"
    unfolding startsWith_hash by simp
  have h2: "\<not> endsWith ?t ''|''"
    unfolding endsWith_bar using v by simp
  have h3: "startsWith ?t ''- ''"
    by (rule startsWith_dash_space)
  have h4: "slice_from ?t 2 = ?c"
    using slice_from_drop [of "''- ''" ?c] by simp
  have h5: "includes_char ?c CHR '':''"
    by (simp add: includes_char_def)
  have h6: "split_js CHR '':'' ?c = f # split_js CHR '':'' (w1 @ v)"
    using split_js_line [of "CHR '':''" f "w1 @ v"] f by simp
  have h7: "join_js '':'' (split_js CHR '':'' (w1 @ v)) = w1 @ v"
    by (rule join_split)
  have h8: "trim (w1 @ v) = v"
    using trim_core [of v w1 "[]"] v w by simp
  have sl: "step_list_item s ?c
    = Inr (s\<lparr>currentList := Some [],
             currentListItem := Some (obj_set [] (trim f) (JStr (strip_quotes v)))\<rparr>)"
    unfolding step_list_item_def Let_def set_field_def h6 h7
    using h5 s by (simp add: set_item_def h7 h8)
  have sr: "step_rest s (w0 @ ''- '' @ f @ '':'' @ w1 @ v @ w2) ?t = step_list_item s ?c"
    unfolding step_rest_def using h2 h3 h4 by simp
  show ?thesis
    unfolding step_def Let_def t
    using nz h1 s sr sl by simp
qed

section \<open>Plain keys\<close>

lemma obj_set_Nil: "k \<noteq> ''__proto__'' \<Longrightarrow> obj_set [] k v = [(k, v)]"
  by (simp add: obj_set_def)

lemma plain_key_proto: "plain_key k \<Longrightarrow> k \<noteq> ''__proto__''"
  by (simp add: plain_key_def)

lemma plain_key_nl: "plain_key k \<Longrightarrow> CHR 0x0A \<notin> set k"
  by (simp add: plain_key_def)

lemma plain_key_trim: "plain_key k \<Longrightarrow> trim k = k"
  using trim_core [of k "[]" "[]"] by (simp add: plain_key_def)

section \<open>The order of enumeration\<close>



lemma enum_order_idem: "enum_order (enum_order kvs) = enum_order kvs"
proof -
  let ?f = "\<lambda>p :: string \<times> 'a. dec_val (fst p)"
  let ?P = "\<lambda>p :: string \<times> 'a. is_array_index (fst p)"
  let ?S = "sort_key ?f (filter ?P kvs)"
  let ?N = "filter (\<lambda>p. \<not> ?P p) kvs"
  have 1: "filter ?P ?S = ?S" by (simp add: filter_sort)
  have 2: "filter ?P ?N = []" by simp
  have 3: "filter (\<lambda>p. \<not> ?P p) ?S = []" by (simp add: filter_sort)
  have 4: "filter (\<lambda>p. \<not> ?P p) ?N = ?N" by simp
  have 5: "sort_key ?f ?S = ?S"
    by (rule sort_key_id_if_sorted) (rule sorted_sort_key)
  show ?thesis
    unfolding enum_order_def filter_append 1 2 3 4 by (simp add: 5)
qed

section \<open>Round trip of a supported mapping\<close>

lemma top_line_facts:
  assumes k: "plain_key k" and r: "\<not> is_ws (last (k @ '':'' @ r))"
  shows "trim (k @ '':'' @ r) = k @ '':'' @ r"
    and "\<not> startsWith (k @ '':'' @ r) ''#''"
    and "\<not> startsWith (k @ '':'' @ r) ''- ''"
    and "\<not> startsWith (k @ '':'' @ r) ''-''"
    and "search_S (k @ '':'' @ r) = 0"
    and "includes_char (k @ '':'' @ r) CHR '':''"
proof -
  let ?t = "k @ '':'' @ r"
  from k have k1: "k \<noteq> []" "\<not> is_ws (hd k)" "hd k \<noteq> CHR ''#''" "hd k \<noteq> CHR ''-''"
    by (simp_all add: plain_key_def)
  have hd_t: "hd ?t = hd k" using k1 by simp
  show "trim ?t = ?t"
    using trim_core [of ?t "[]" "[]"] k1 r by simp
  show "\<not> startsWith ?t ''#''"
    unfolding startsWith_hash hd_t using k1 by simp
  show "\<not> startsWith ?t ''- ''"
    using startsWith_dash_space_hd [of ?t] k1 unfolding hd_t by blast
  show "\<not> startsWith ?t ''-''"
    unfolding startsWith_dash hd_t using k1 by simp
  show "search_S ?t = 0"
    using search_S_core [of k "[]" "'':'' @ r"] k1 by simp
  show "includes_char ?t CHR '':''"
    by (simp add: includes_char_def)
qed

lemma step_settle:
  assumes inv: "inMultilineString s \<Longrightarrow> 0 \<le> indentLevel s"
    and k: "plain_key k" and r: "\<not> is_ws (last (k @ '':'' @ r))"
    and b: "last (k @ '':'' @ r) \<noteq> CHR ''|''"
  shows "step s (k @ '':'' @ r) = Inr (step_key_value (settle s) (k @ '':'' @ r))"
proof -
  let ?t = "k @ '':'' @ r"
  let ?s1 = "if inMultilineString s
             then s\<lparr>result := obj_set (result s) (prop_name (multilineKey s))
                                (JStr (trim (multilineContent s))),
                    inMultilineString := False\<rparr>
             else s"
  note f = top_line_facts [OF k r]
  have nz: "?t \<noteq> []" by simp
  have h2: "\<not> endsWith ?t ''|''"
    unfolding endsWith_bar using b by simp
  have a: "step s ?t = step_rest ?s1 ?t ?t"
    unfolding step_def Let_def f(1) f(5) using nz f(2) inv by auto
  have c: "step_rest ?s1 ?t ?t =
    (case (if currentList ?s1 \<noteq> None then close_list ?s1 else Inr ?s1) of
       Inl e \<Rightarrow> Inl e | Inr s2 \<Rightarrow> Inr (step_key_value s2 ?t))"
    unfolding step_rest_def Let_def f(5) using h2 f(3) f(6) by simp
  show ?thesis
  proof (cases "currentList ?s1")
    case None
    then have "settle s = ?s1"
      unfolding settle_def Let_def by simp
    with None a c show ?thesis by simp
  next
    case (Some l)
    then obtain s2 where s2: "close_list ?s1 = Inr s2"
      using close_list_total [of ?s1] by auto
    with Some have "settle s = s2"
      unfolding settle_def Let_def by simp
    with Some a c s2 show ?thesis by simp
  qed
qed

lemma settle_clean:
  "\<not> inMultilineString s \<Longrightarrow> currentList s = None \<Longrightarrow> settle s = s"
  by (simp add: settle_def)

lemma settle_block:
  "inMultilineString s \<Longrightarrow> currentList s = None \<Longrightarrow>
   settle s = s\<lparr>result := obj_set (result s) (prop_name (multilineKey s))
                              (JStr (trim (multilineContent s))),
                 inMultilineString := False\<rparr>"
  by (simp add: settle_def)

lemma settle_pending:
  "\<not> inMultilineString s \<Longrightarrow> currentList s = Some l \<Longrightarrow> currentListItem s = Some it
   \<Longrightarrow> it \<noteq> [] \<Longrightarrow> currentKey s = Some k \<Longrightarrow> k \<noteq> [] \<Longrightarrow>
   settle s = s\<lparr>currentList := None, currentListItem := None,
                 result := obj_set (result s) k (JArr (l @ [JObj it]))\<rparr>"
  by (simp add: settle_def close_list_def push_def truthy_key_def prop_name_def)

lemma step_key_value_scalar:
  assumes k: "plain_key k"
    and w: "list_all is_ws w1"
    and v: "v \<noteq> []" "\<not> is_ws (hd v)" "\<not> is_ws (last v)" "last v \<noteq> CHR ''|''"
      "strip_quotes v \<noteq> []"
  shows "step_key_value s (k @ '':'' @ w1 @ v)
    = s\<lparr>result := obj_set (result s) k (JStr (strip_quotes v))\<rparr>"
proof -
  let ?t = "k @ '':'' @ w1 @ v"
  from k have k1: "k \<noteq> []" "\<not> is_ws (hd k)" "\<not> is_ws (last k)" "CHR '':'' \<notin> set k"
    by (simp_all add: plain_key_def)
  have r: "\<not> is_ws (last ?t)" using v by simp
  note f = top_line_facts [OF k r]
  have h6: "indexOf ?t CHR '':'' = int (length k)"
    using indexOf_first [of "CHR '':''" k "w1 @ v"] k1 by simp
  have h7: "slice ?t 0 (int (length k)) = k"
    by (rule slice_take)
  have h8: "slice_from ?t (int (length k) + 1) = w1 @ v"
    using slice_from_drop [of "k @ '':''" "w1 @ v"] by (simp add: add.commute)
  have h9: "trim k = k"
    using trim_core [of k "[]" "[]"] k1 by simp
  have h10: "trim (w1 @ v) = v"
    using trim_core [of v w1 "[]"] v w by simp
  show ?thesis
    unfolding step_key_value_def Let_def h6 h7 h8 h9 h10
    using f(6) f(4) v by simp
qed

lemma step_key_value_header:
  assumes k: "plain_key k"
  shows "step_key_value s (k @ '':'') = s\<lparr>currentKey := Some k\<rparr>"
proof -
  let ?t = "k @ '':''"
  from k have k1: "k \<noteq> []" "\<not> is_ws (hd k)" "\<not> is_ws (last k)" "CHR '':'' \<notin> set k"
    by (simp_all add: plain_key_def)
  have r: "\<not> is_ws (last (k @ '':'' @ []))" by (simp add: is_ws_def)
  note f = top_line_facts [OF k r]
  have h2: "\<not> endsWith ?t ''|''"
    unfolding endsWith_bar by simp
  have h6: "indexOf ?t CHR '':'' = int (length k)"
    using indexOf_first [of "CHR '':''" k "[]"] k1 by simp
  have h7: "slice ?t 0 (int (length k)) = k"
    by (rule slice_take)
  have h8: "slice_from ?t (int (length k) + 1) = []"
    using slice_from_drop [of "k @ '':''" "[]"] by (simp add: add.commute)
  have h9: "trim k = k"
    using trim_core [of k "[]" "[]"] k1 by simp
  show ?thesis
    unfolding step_key_value_def Let_def h6 h7 h8 h9 trim_Nil strip_quotes_Nil
    using f(6) f(4) h2 by simp
qed

lemma step_scalar_any:
  assumes "inMultilineString s \<Longrightarrow> 0 \<le> indentLevel s"
    and "plain_key (fst p)" "plain_value (snd p)"
  shows "step s (flat_line p)
    = Inr ((settle s)\<lparr>result := obj_set (result (settle s)) (fst p) (JStr (snd p))\<rparr>)"
proof -
  let ?v = "CHR 0x22 # snd p @ [CHR 0x22]"
  have sq: "strip_quotes ?v = snd p"
    by (rule strip_quotes_dq)
  have fl: "flat_line p = fst p @ '':'' @ '' '' @ ?v"
    by (simp add: flat_line_def)
  have 1: "step s (fst p @ '':'' @ '' '' @ ?v)
    = Inr (step_key_value (settle s) (fst p @ '':'' @ '' '' @ ?v))"
    using assms by (intro step_settle) (simp_all add: is_ws_def)
  have 2: "step_key_value (settle s) (fst p @ '':'' @ '' '' @ ?v)
    = (settle s)\<lparr>result := obj_set (result (settle s)) (fst p) (JStr (strip_quotes ?v))\<rparr>"
    using assms by (intro step_key_value_scalar) (simp_all add: is_ws_def plain_value_def sq)
  show ?thesis
    unfolding fl 1 2 sq ..
qed

lemma step_header_any:
  assumes "inMultilineString s \<Longrightarrow> 0 \<le> indentLevel s" and "plain_key k"
  shows "step s (k @ '':'') = Inr ((settle s)\<lparr>currentKey := Some k\<rparr>)"
proof -
  have "step s (k @ '':'' @ []) = Inr (step_key_value (settle s) (k @ '':'' @ []))"
    using assms by (intro step_settle) (simp_all add: is_ws_def)
  then show ?thesis
    by (simp add: step_key_value_header [OF assms(2)])
qed

lemma step_block_start:
  assumes inv: "inMultilineString s \<Longrightarrow> 0 \<le> indentLevel s"
    and cl: "currentList s = None"
    and k: "plain_key k"
  shows "step s (k @ '': |'')
    = Inr ((settle s)\<lparr>multilineKey := Some k, multilineContent := [],
             inMultilineString := True, indentLevel := 0\<rparr>)"
proof -
  let ?t = "k @ '':'' @ '' |''"
  let ?s1 = "if inMultilineString s
             then s\<lparr>result := obj_set (result s) (prop_name (multilineKey s))
                                (JStr (trim (multilineContent s))),
                    inMultilineString := False\<rparr>
             else s"
  from k have k1: "k \<noteq> []" "\<not> is_ws (hd k)" "\<not> is_ws (last k)" "CHR '':'' \<notin> set k"
    by (simp_all add: plain_key_def)
  have r: "\<not> is_ws (last ?t)" by (simp add: is_ws_def)
  note f = top_line_facts [OF k r]
  have nz: "?t \<noteq> []" by simp
  have h2: "endsWith ?t ''|''"
    unfolding endsWith_bar by simp
  have a: "step s ?t = step_rest ?s1 ?t ?t"
    unfolding step_def Let_def f(1) f(5) using nz f(2) inv by auto
  have bl: "butlast ?t = k @ '': ''"
    by (simp add: butlast_append)
  have rm: "remove1 CHR '':'' (k @ '': '') = k @ '' ''"
    using k1 by (simp add: remove1_append)
  have tr: "trim (k @ '' '') = k"
    using trim_core [of k "[]" "'' ''"] k1 by (simp add: is_ws_def)
  have c: "step_rest ?s1 ?t ?t
    = Inr (?s1\<lparr>multilineKey := Some k, multilineContent := [],
               inMultilineString := True, indentLevel := 0\<rparr>)"
    unfolding step_rest_def slice_butlast bl rm tr f(5) using h2 by simp
  have "settle s = ?s1"
    unfolding settle_def Let_def using cl by simp
  with a c show ?thesis by simp
qed

lemma step_block_line:
  assumes s: "inMultilineString s" "indentLevel s = 0" and l: "block_line l"
  shows "step s (''  '' @ l)
    = Inr (s\<lparr>multilineContent :=
               (if l = [] then multilineContent s @ [CHR 0x0A]
                else multilineContent s
                  @ (if multilineContent s \<noteq> [] then [CHR 0x0A] else []) @ l)\<rparr>)"
proof (cases "l = []")
  case True
  have "trim (''  '' @ l) = []"
    using True by (simp add: trim_def is_ws_def)
  then show ?thesis
    unfolding step_def Let_def using True s by simp
next
  case False
  with l have l1: "\<not> is_ws (hd l)" "\<not> is_ws (last l)" "hd l \<noteq> CHR ''#''"
    by (simp_all add: block_line_def)
  have t: "trim (''  '' @ l) = l"
    using trim_core [of l "''  ''" "[]"] False l1 by (simp add: is_ws_def)
  have h1: "\<not> startsWith l ''#''"
    unfolding startsWith_hash using l1 by simp
  have h4: "search_S (''  '' @ l) = 2"
    using search_S_core [of l "''  ''" "[]"] False l1 by (simp add: is_ws_def)
  show ?thesis
    unfolding step_def Let_def t h4 using False h1 s by simp
qed

lemma step_continuation_line:
  assumes s: "\<not> inMultilineString s" "currentListItem s = Some it"
    and f: "plain_key f"
    and w: "list_all is_ws w1"
    and v: "v \<noteq> []" "\<not> is_ws (hd v)" "\<not> is_ws (last v)" "last v \<noteq> CHR ''|''"
  shows "step s (''    '' @ f @ '':'' @ w1 @ v)
    = Inr (s\<lparr>currentListItem := Some (obj_set it f (JStr (strip_quotes v)))\<rparr>)"
proof -
  let ?t = "f @ '':'' @ w1 @ v"
  from f have f1: "f \<noteq> []" "\<not> is_ws (hd f)" "\<not> is_ws (last f)" "CHR '':'' \<notin> set f"
    by (simp_all add: plain_key_def)
  have r: "\<not> is_ws (last ?t)" using v by simp
  note tf = top_line_facts [OF f r]
  have t: "trim (''    '' @ ?t) = ?t"
    using trim_core [of ?t "''    ''" "[]"] f1 r by (simp add: is_ws_def)
  have nz: "?t \<noteq> []" by simp
  have h2: "\<not> endsWith ?t ''|''"
    unfolding endsWith_bar using v by simp
  have h4: "search_S (''    '' @ ?t) = 4"
    using search_S_core [of f "''    ''" "'':'' @ w1 @ v"] f1 by (simp add: is_ws_def)
  have h6: "split_js CHR '':'' ?t = f # split_js CHR '':'' (w1 @ v)"
    using split_js_line [of "CHR '':''" f "w1 @ v"] f1 by simp
  have h7: "join_js '':'' (split_js CHR '':'' (w1 @ v)) = w1 @ v"
    by (rule join_split)
  have h8: "trim (w1 @ v) = v"
    using trim_core [of v w1 "[]"] v w by simp
  have h9: "trim f = f"
    using trim_core [of f "[]" "[]"] f1 by simp
  have sf: "set_field s ?t = Inr (s\<lparr>currentListItem := Some (obj_set it f (JStr (strip_quotes v)))\<rparr>)"
    unfolding set_field_def h6 using s by (simp add: set_item_def h7 h8 h9)
  have sr: "step_rest s (''    '' @ ?t) ?t = set_field s ?t"
    unfolding step_rest_def Let_def h4 using h2 tf(3) tf(6) s by simp
  show ?thesis
    unfolding step_def Let_def t using nz tf(2) s sr sf by simp
qed

lemma wf_indent: "wf_state s \<Longrightarrow> inMultilineString s \<Longrightarrow> 0 \<le> indentLevel s"
  by (auto simp: wf_state_def split: option.splits)

lemma wf_settle_conj:
  assumes "wf_state s"
  shows "\<not> inMultilineString (settle s) \<and> currentList (settle s) = None
    \<and> currentListItem (settle s) = None"
proof (cases "currentList s")
  case None
  with assms show ?thesis
    by (auto simp: wf_state_def settle_def)
next
  case (Some l)
  with assms obtain it k where a: "\<not> inMultilineString s" "currentListItem s = Some it"
    "it \<noteq> []" "currentKey s = Some k" "k \<noteq> []"
    by (auto simp: wf_state_def truthy_key_def split: option.splits)
  with Some have "settle s = s\<lparr>currentList := None, currentListItem := None,
               result := obj_set (result s) k (JArr (l @ [JObj it]))\<rparr>"
    by (intro settle_pending)
  with a(1) show ?thesis
    by simp
qed

lemma wf_settle:
  assumes "wf_state s"
  shows "\<not> inMultilineString (settle s)" "currentList (settle s) = None"
    "currentListItem (settle s) = None"
  using wf_settle_conj [OF assms] by simp_all

lemma plain_field_eq: "plain_field q \<Longrightarrow> (fst q, JStr (field_text (snd q))) = q"
  by (cases q) (auto simp: plain_field_def field_text_def split: jsval.splits)

lemma plain_field_nl: "plain_field q \<Longrightarrow> CHR 0x0A \<notin> set (field_text (snd q))"
  by (auto simp: plain_field_def field_text_def split: jsval.splits)

lemma step_field_line:
  assumes "\<not> inMultilineString s" "currentListItem s = Some it" "plain_field q"
    "fst q \<notin> fst ` set it"
  shows "step s (field_line q) = Inr (s\<lparr>currentListItem := Some (it @ [q])\<rparr>)"
proof -
  let ?v = "CHR 0x22 # field_text (snd q) @ [CHR 0x22]"
  have k: "plain_key (fst q)" using assms(3) by (simp add: plain_field_def)
  have sq: "strip_quotes ?v = field_text (snd q)"
    by (rule strip_quotes_dq)
  have "step s (''    '' @ fst q @ '':'' @ '' '' @ ?v)
    = Inr (s\<lparr>currentListItem := Some (obj_set it (fst q) (JStr (strip_quotes ?v)))\<rparr>)"
    using assms(1,2) k by (intro step_continuation_line) (simp_all add: is_ws_def)
  moreover have "obj_set it (fst q) (JStr (field_text (snd q))) = it @ [q]"
    using assms(4) plain_key_proto [OF k] plain_field_eq [OF assms(3)]
    by (simp add: obj_set_def)
  ultimately show ?thesis
    by (simp add: field_line_def kv_line_def sq)
qed

lemma run_field_lines:
  assumes "\<not> inMultilineString s" "currentListItem s = Some it" "list_all plain_field fs"
    "distinct (map fst (it @ fs))"
  shows "run s (map field_line fs @ rest)
    = run (s\<lparr>currentListItem := Some (it @ fs)\<rparr>) rest"
  using assms
proof (induction fs arbitrary: s it)
  case Nil
  then have "s\<lparr>currentListItem := Some it\<rparr> = s"
    by (cases s) simp
  then show ?case by simp
next
  case (Cons q fs)
  let ?s = "s\<lparr>currentListItem := Some (it @ [q])\<rparr>"
  from Cons.prems have st: "step s (field_line q) = Inr ?s"
    by (intro step_field_line) auto
  have "run ?s (map field_line fs @ rest)
    = run (?s\<lparr>currentListItem := Some ((it @ [q]) @ fs)\<rparr>) rest"
    using Cons.prems by (intro Cons.IH) auto
  then show ?case
    using st by simp
qed

lemma step_first_field_line:
  assumes "\<not> inMultilineString s" "currentList s = None" "currentListItem s = None"
    "plain_field p"
  shows "step s (first_field_line p)
    = Inr (s\<lparr>currentList := Some [], currentListItem := Some [p]\<rparr>)"
proof -
  let ?v = "CHR 0x22 # field_text (snd p) @ [CHR 0x22]"
  have k: "plain_key (fst p)" using assms(4) by (simp add: plain_field_def)
  have kc: "CHR '':'' \<notin> set (fst p)" using k by (simp add: plain_key_def)
  have sq: "strip_quotes ?v = field_text (snd p)"
    by (rule strip_quotes_dq)
  have "step s (''  '' @ ''- '' @ fst p @ '':'' @ '' '' @ ?v @ [])
    = Inr (s\<lparr>currentList := Some [],
             currentListItem := Some (obj_set [] (trim (fst p)) (JStr (strip_quotes ?v)))\<rparr>)"
    using assms(1,2,3) kc by (intro step_record_item_line) (simp_all add: is_ws_def)
  moreover have "obj_set [] (trim (fst p)) (JStr (field_text (snd p))) = [p]"
    using plain_key_proto [OF k] plain_key_trim [OF k] plain_field_eq [OF assms(4)]
    by (simp add: obj_set_def)
  ultimately show ?thesis
    by (simp add: first_field_line_def kv_line_def sq)
qed

lemma run_list_entry:
  assumes wf: "wf_state s" and k: "plain_key k"
    and fs: "list_all plain_field (p # fs)" "distinct (map fst (p # fs))"
  shows "run s ((k @ '':'') # (first_field_line p) # map field_line fs @ rest)
    = run ((settle s)\<lparr>currentKey := Some k, currentList := Some [],
             currentListItem := Some (p # fs)\<rparr>) rest"
proof -
  let ?s1 = "(settle s)\<lparr>currentKey := Some k\<rparr>"
  let ?s2 = "?s1\<lparr>currentList := Some [], currentListItem := Some [p]\<rparr>"
  note c = wf_settle [OF wf]
  have 1: "step s (k @ '':'') = Inr ?s1"
    using wf_indent [OF wf] k by (intro step_header_any)
  have 2: "step ?s1 (first_field_line p) = Inr ?s2"
    using c fs by (intro step_first_field_line) simp_all
  have 3: "run ?s2 (map field_line fs @ rest)
    = run (?s2\<lparr>currentListItem := Some ([p] @ fs)\<rparr>) rest"
    using c fs by (intro run_field_lines) simp_all
  show ?thesis
    using 1 2 3 by simp
qed

lemma run_scalar_entry:
  assumes wf: "wf_state s" and k: "plain_key k" and v: "plain_value v"
  shows "run s (kv_line (k, JStr v) # rest)
    = run ((settle s)\<lparr>result := obj_set (result (settle s)) k (JStr v)\<rparr>) rest"
proof -
  have "kv_line (k, JStr v) = flat_line (k, v)"
    by (simp add: kv_line_def flat_line_def field_text_def)
  moreover have "step s (flat_line (k, v))
    = Inr ((settle s)\<lparr>result := obj_set (result (settle s)) (fst (k, v)) (JStr (snd (k, v)))\<rparr>)"
    using wf_indent [OF wf] k v by (intro step_scalar_any) simp_all
  ultimately show ?thesis by simp
qed

lemma run_block_lines:
  assumes "inMultilineString s" "indentLevel s = 0" "list_all block_line ls"
  shows "run s (map block_text_line ls @ rest)
    = run (s\<lparr>multilineContent :=
               foldl (\<lambda>c l. if l = [] then c @ [CHR 0x0A]
                        else c @ (if c \<noteq> [] then [CHR 0x0A] else []) @ l)
                 (multilineContent s) ls\<rparr>) rest"
  using assms
proof (induction ls arbitrary: s)
  case Nil
  show ?case by simp
next
  case (Cons l ls)
  let ?c = "if l = [] then multilineContent s @ [CHR 0x0A]
            else multilineContent s @ (if multilineContent s \<noteq> [] then [CHR 0x0A] else []) @ l"
  let ?s = "s\<lparr>multilineContent := ?c\<rparr>"
  from Cons.prems have st: "step s (block_text_line l) = Inr ?s"
    unfolding block_text_line_def by (intro step_block_line) simp_all
  have "run ?s (map block_text_line ls @ rest)
    = run (?s\<lparr>multilineContent :=
               foldl (\<lambda>c l. if l = [] then c @ [CHR 0x0A]
                        else c @ (if c \<noteq> [] then [CHR 0x0A] else []) @ l)
                 (multilineContent ?s) ls\<rparr>) rest"
    using Cons.prems by (intro Cons.IH) simp_all
  then show ?case
    using st by simp
qed

lemma block_acc_nonempty:
  "c \<noteq> [] \<Longrightarrow>
   foldl (\<lambda>c l. if l = [] then c @ [CHR 0x0A]
            else c @ (if c \<noteq> [] then [CHR 0x0A] else []) @ l) c ls
   = c @ concat (map (\<lambda>l. CHR 0x0A # l) ls)"
  by (induction ls arbitrary: c) auto

lemma join_concat: "join_js [c] (l # ls) = l @ concat (map (\<lambda>x. c # x) ls)"
  by (induction ls arbitrary: l) auto

lemma split_js_concat:
  assumes "split_js c s = l # ls"
  shows "s = l @ concat (map (\<lambda>x. c # x) ls)"
  using join_split [of c s] assms by (simp add: join_concat)

lemma split_js_no_sep: "l \<in> set (split_js c s) \<Longrightarrow> c \<notin> set l"
proof (induction s arbitrary: l)
  case Nil
  then show ?case by simp
next
  case (Cons x xs)
  show ?case
  proof (cases "split_js c xs")
    case Nil
    with split_js_not_Nil show ?thesis by blast
  next
    case (Cons p ps)
    with Cons.prems Cons.IH show ?thesis
      by (auto split: if_splits)
  qed
qed

lemma last_concat_sep:
  "ls \<noteq> [] \<Longrightarrow> last (concat (map (\<lambda>x. c # x) ls)) = last (c # last ls)"
  by (cases ls rule: rev_cases) simp_all

lemma block_value_facts:
  assumes "block_value v"
  shows "foldl (\<lambda>c l. if l = [] then c @ [CHR 0x0A]
            else c @ (if c \<noteq> [] then [CHR 0x0A] else []) @ l) [] (split_js CHR 0x0A v) = v"
    and "trim v = v"
proof -
  obtain l ls where sp: "split_js CHR 0x0A v = l # ls"
    using split_js_not_Nil [of "CHR 0x0A" v] by (cases "split_js CHR 0x0A v") auto
  from assms sp have l: "l \<noteq> []" "block_line l" and la: "last (l # ls) \<noteq> []"
    "block_line (last (l # ls))"
    by (auto simp: block_value_def list_all_iff)
  have v: "v = l @ concat (map (\<lambda>x. CHR 0x0A # x) ls)"
    using sp by (rule split_js_concat)
  have "foldl (\<lambda>c l. if l = [] then c @ [CHR 0x0A]
            else c @ (if c \<noteq> [] then [CHR 0x0A] else []) @ l) [] (l # ls)
    = l @ concat (map (\<lambda>l. CHR 0x0A # l) ls)"
    using l(1) by (simp add: block_acc_nonempty)
  then show "foldl (\<lambda>c l. if l = [] then c @ [CHR 0x0A]
            else c @ (if c \<noteq> [] then [CHR 0x0A] else []) @ l) [] (split_js CHR 0x0A v) = v"
    using sp v by simp
  have hd: "\<not> is_ws (hd v)"
    using l v by (cases l) (auto simp: block_line_def)
  have "last v = last (last (l # ls))"
  proof (cases "ls = []")
    case True
    with v show ?thesis by simp
  next
    case False
    then have "last v = last (CHR 0x0A # last ls)"
      using v last_concat_sep [OF False, of "CHR 0x0A"] by simp
    with False la show ?thesis by simp
  qed
  then have "\<not> is_ws (last v)"
    using la by (auto simp: block_line_def)
  moreover have "v \<noteq> []" using v l by simp
  ultimately show "trim v = v"
    using trim_core [of v "[]" "[]"] hd by simp
qed

lemma run_block_entry:
  assumes wf: "wf_state s" and cl: "currentList s = None"
    and k: "plain_key k" and v: "block_value v"
  shows "run s ((k @ '': |'') # map block_text_line (split_js CHR 0x0A v) @ rest)
    = run ((settle s)\<lparr>multilineKey := Some k, multilineContent := v,
             inMultilineString := True, indentLevel := 0\<rparr>) rest"
proof -
  let ?s1 = "(settle s)\<lparr>multilineKey := Some k, multilineContent := [],
             inMultilineString := True, indentLevel := 0\<rparr>"
  have 1: "step s (k @ '': |'') = Inr ?s1"
    using wf_indent [OF wf] cl k by (intro step_block_start)
  have 2: "run ?s1 (map block_text_line (split_js CHR 0x0A v) @ rest)
    = run (?s1\<lparr>multilineContent :=
               foldl (\<lambda>c l. if l = [] then c @ [CHR 0x0A]
                        else c @ (if c \<noteq> [] then [CHR 0x0A] else []) @ l)
                 (multilineContent ?s1) (split_js CHR 0x0A v)\<rparr>) rest"
    using v by (intro run_block_lines) (simp_all add: block_value_def)
  have 3: "t\<lparr>multilineKey := a, inMultilineString := b, indentLevel := c, multilineContent := d\<rparr>
    = t\<lparr>multilineKey := a, multilineContent := d, inMultilineString := b, indentLevel := c\<rparr>"
    for t :: pstate and a b c d
    by (cases t) simp
  show ?thesis
    using 1 2 by (simp add: block_value_facts(1) [OF v] 3)
qed

lemma supported_value_cases:
  assumes "supported_value v"
  obtains (scalar) x where "v = JStr x" "plain_value x" "CHR 0x0A \<notin> set x"
  | (block) x where "v = JStr x" "block_value x" "CHR 0x0A \<in> set x"
  | (reclist) p fs where "v = JArr [JObj (p # fs)]" "distinct (map fst (p # fs))"
      "list_all plain_field (p # fs)" "entries (p # fs) = p # fs"
proof (cases v rule: supported_value.cases)
  case (1 s)
  with assms scalar block show ?thesis
    by (auto simp: plain_value_def block_value_def)
next
  case (2 flds)
  with assms reclist show ?thesis
    by (cases flds) auto
qed (use assms in simp_all)

lemma run_entries:
  assumes "wf_state s"
    and "list_all (\<lambda>p. plain_key (fst p) \<and> supported_value (snd p)) es"
    and "layout_ok es"
    and "es \<noteq> [] \<Longrightarrow> is_block (snd (hd es)) \<Longrightarrow> currentList s = None"
    and "es = [] \<Longrightarrow> \<not> inMultilineString s"
  shows "\<exists>s'. run s (concat (map entry_lines es) @ rest) = run s' rest \<and> wf_state s'
    \<and> \<not> inMultilineString s'
    \<and> result (settle s') = foldl (\<lambda>obj p. obj_set obj (fst p) (snd p)) (result (settle s)) es"
  using assms
proof (induction es arbitrary: s)
  case Nil
  then show ?case by auto
next
  case (Cons e es)
  obtain k v where e: "e = (k, v)" by (cases e)
  from Cons.prems(2) e have k: "plain_key k" and sv: "supported_value v"
    and rest_ok: "list_all (\<lambda>p. plain_key (fst p) \<and> supported_value (snd p)) es"
    by simp_all
  note c = wf_settle [OF Cons.prems(1)]
  have kne: "k \<noteq> []" using k by (simp add: plain_key_def)
  have "\<exists>s1. run s (entry_lines e @ concat (map entry_lines es) @ rest)
      = run s1 (concat (map entry_lines es) @ rest)
    \<and> wf_state s1
    \<and> result (settle s1) = obj_set (result (settle s)) k v
    \<and> (inMultilineString s1 \<longleftrightarrow> is_block v)
    \<and> (currentList s1 \<noteq> None \<longrightarrow> is_list v)"
    using sv
  proof (cases rule: supported_value_cases)
    case (scalar x)
    let ?s1 = "(settle s)\<lparr>result := obj_set (result (settle s)) k (JStr x)\<rparr>"
    have el: "entry_lines e = [kv_line (k, JStr x)]"
      using e scalar by simp
    have r: "run s (entry_lines e @ concat (map entry_lines es) @ rest)
      = run ?s1 (concat (map entry_lines es) @ rest)"
      unfolding el append_Cons append_Nil
      using Cons.prems(1) k scalar(2) by (rule run_scalar_entry)
    have w: "wf_state ?s1" using c by (simp add: wf_state_def)
    have "settle ?s1 = ?s1" using c by (intro settle_clean) simp_all
    with r w c scalar e show ?thesis
      by (intro exI [of _ ?s1]) (simp add: is_block_def)
  next
    case (block x)
    let ?s1 = "(settle s)\<lparr>multilineKey := Some k, multilineContent := x,
             inMultilineString := True, indentLevel := 0\<rparr>"
    from block e have "is_block (snd (hd (e # es)))" by (simp add: is_block_def)
    with Cons.prems(4) have cl: "currentList s = None" by simp
    have el: "entry_lines e = (k @ '': |'') # map block_text_line (split_js CHR 0x0A x)"
      using e block by simp
    have r: "run s (entry_lines e @ concat (map entry_lines es) @ rest)
      = run ?s1 (concat (map entry_lines es) @ rest)"
      unfolding el append_Cons
      using Cons.prems(1) cl k block(2) by (rule run_block_entry)
    have w: "wf_state ?s1" using c by (simp add: wf_state_def)
    have "settle ?s1 = ?s1\<lparr>result := obj_set (result ?s1) (prop_name (multilineKey ?s1))
                              (JStr (trim (multilineContent ?s1))),
                 inMultilineString := False\<rparr>"
      using c by (intro settle_block) simp_all
    then have "result (settle ?s1) = obj_set (result (settle s)) k (JStr x)"
      by (simp add: prop_name_def block_value_facts(2) [OF block(2)])
    with r w c block e show ?thesis
      by (intro exI [of _ ?s1]) (simp add: is_block_def)
  next
    case (reclist p fs)
    let ?s1 = "(settle s)\<lparr>currentKey := Some k, currentList := Some [],
             currentListItem := Some (p # fs)\<rparr>"
    have el: "entry_lines e
      = (k @ '':'') # first_field_line p # map field_line fs"
      using e reclist by simp
    have r: "run s (entry_lines e @ concat (map entry_lines es) @ rest)
      = run ?s1 (concat (map entry_lines es) @ rest)"
      unfolding el append_Cons
      using Cons.prems(1) k reclist(3) reclist(2) by (rule run_list_entry)
    have w: "wf_state ?s1" using c kne by (simp add: wf_state_def truthy_key_def)
    have "settle ?s1 = ?s1\<lparr>currentList := None, currentListItem := None,
                 result := obj_set (result ?s1) k (JArr ([] @ [JObj (p # fs)]))\<rparr>"
      using c kne by (intro settle_pending) simp_all
    then have "result (settle ?s1) = obj_set (result (settle s)) k (JArr [JObj (p # fs)])"
      by simp
    with r w c reclist e show ?thesis
      by (intro exI [of _ ?s1]) (simp add: is_block_def is_list_def)
  qed
  then obtain s1 where s1: "run s (entry_lines e @ concat (map entry_lines es) @ rest)
      = run s1 (concat (map entry_lines es) @ rest)"
    "wf_state s1" "result (settle s1) = obj_set (result (settle s)) k v"
    "inMultilineString s1 \<longleftrightarrow> is_block v" "currentList s1 \<noteq> None \<longrightarrow> is_list v"
    by blast
  have lo: "layout_ok es" and a4: "es \<noteq> [] \<Longrightarrow> is_block (snd (hd es)) \<Longrightarrow> currentList s1 = None"
    and a5: "es = [] \<Longrightarrow> \<not> inMultilineString s1"
  proof -
    show "layout_ok es"
      using Cons.prems(3) by (cases es) simp_all
    show "currentList s1 = None" if "es \<noteq> []" "is_block (snd (hd es))"
      using that Cons.prems(3) s1(5) e by (cases es) auto
    show "\<not> inMultilineString s1" if "es = []"
      using that Cons.prems(3) s1(4) e by simp
  qed
  obtain s' where s': "run s1 (concat (map entry_lines es) @ rest) = run s' rest"
    "wf_state s'" "\<not> inMultilineString s'"
    "result (settle s') = foldl (\<lambda>obj p. obj_set obj (fst p) (snd p)) (result (settle s1)) es"
    using Cons.IH [OF s1(2) rest_ok lo a4 a5] by blast
  show ?case
    using s1(1,3) s' e by (intro exI [of _ s']) simp
qed

lemma text_of_lines_append: "text_of_lines (a @ b) = text_of_lines a @ text_of_lines b"
  by (simp add: text_of_lines_def)

lemma text_of_lines_Cons: "text_of_lines (l # ls) = l @ CHR 0x0A # text_of_lines ls"
  by (simp add: text_of_lines_def)

lemma split_text_of_lines:
  "(\<And>l. l \<in> set ls \<Longrightarrow> CHR 0x0A \<notin> set l)
   \<Longrightarrow> split_js CHR 0x0A (text_of_lines ls) = ls @ [[]]"
proof (induction ls)
  case Nil
  show ?case by (simp add: text_of_lines_def)
next
  case (Cons l ls)
  then have "CHR 0x0A \<notin> set l" by simp
  then have "split_js CHR 0x0A (l @ CHR 0x0A # text_of_lines ls)
    = l # split_js CHR 0x0A (text_of_lines ls)"
    by (rule split_js_line)
  with Cons show ?case
    by (simp add: text_of_lines_Cons)
qed

lemma kv_line_nl:
  "plain_key (fst p) \<Longrightarrow> CHR 0x0A \<notin> set (field_text (snd p)) \<Longrightarrow> CHR 0x0A \<notin> set (kv_line p)"
  by (simp add: kv_line_def plain_key_def)

lemma entry_lines_nl:
  assumes "plain_key k" "supported_value v" "l \<in> set (entry_lines (k, v))"
  shows "CHR 0x0A \<notin> set l"
  using assms(2)
proof (cases rule: supported_value_cases)
  case (scalar x)
  with assms show ?thesis
    using kv_line_nl [of "(k, JStr x)"] by (auto simp: field_text_def)
next
  case (block x)
  with assms show ?thesis
    using plain_key_nl [OF assms(1)] split_js_no_sep [of _ "CHR 0x0A" x]
    by (auto simp: block_text_line_def)
next
  case (reclist p fs)
  have "CHR 0x0A \<notin> set (kv_line q)" if "q \<in> set (p # fs)" for q
  proof -
    from that reclist(3) have "plain_field q" by (auto simp: list_all_iff)
    then show ?thesis
      using plain_field_nl [of q] by (intro kv_line_nl) (simp_all add: plain_field_def)
  qed
  then have kp: "CHR 0x0A \<notin> set (kv_line p)"
    and kf: "\<forall>q \<in> set fs. CHR 0x0A \<notin> set (kv_line q)"
    by simp_all
  from assms(3) reclist(1) have "l = k @ '':'' \<or> l = first_field_line p \<or> l \<in> field_line ` set fs"
    by auto
  with kp kf show ?thesis
    using plain_key_nl [OF assms(1)]
    by (auto simp: first_field_line_def field_line_def)
qed

lemma finish_settle:
  assumes "wf_state s" "\<not> inMultilineString s"
  shows "finish s = Inr (result (settle s))"
proof (cases "currentList s")
  case None
  with assms show ?thesis
    by (simp add: finish_def settle_clean)
next
  case (Some l)
  with assms obtain it k where a: "l = []" "currentListItem s = Some it"
    "it \<noteq> []" "currentKey s = Some k" "k \<noteq> []"
    by (auto simp: wf_state_def truthy_key_def split: option.splits)
  with Some assms(2) have "settle s = s\<lparr>currentList := None, currentListItem := None,
               result := obj_set (result s) k (JArr (l @ [JObj it]))\<rparr>"
    by (intro settle_pending)
  with Some a show ?thesis
    by (simp add: finish_def push_def truthy_key_def prop_name_def)
qed

lemma foldl_obj_set_entries:
  assumes "distinct (map fst acc @ map fst es)" "''__proto__'' \<notin> fst ` set es"
  shows "foldl (\<lambda>obj p. obj_set obj (fst p) (snd p)) acc es = acc @ es"
  using assms
proof (induction es arbitrary: acc)
  case Nil
  show ?case by simp
next
  case (Cons p es)
  from Cons.prems have 1: "obj_set acc (fst p) (snd p) = acc @ [p]"
    by (auto simp: obj_set_def)
  have "foldl (\<lambda>obj p. obj_set obj (fst p) (snd p)) (acc @ [p]) es = (acc @ [p]) @ es"
    using Cons.prems by (intro Cons.IH) auto
  then show ?case
    by (simp add: 1)
qed

lemma parse_entries:
  assumes "distinct (map fst es)"
    and "list_all (\<lambda>p. plain_key (fst p) \<and> supported_value (snd p)) es"
    and "layout_ok es"
  shows "parseYAML (text_of_lines (concat (map entry_lines es))) = Inr es"
proof -
  have i: "wf_state init_state" "\<not> inMultilineString init_state"
    "currentList init_state = None" "result init_state = []"
    by (simp_all add: init_state_def wf_state_def)
  have nl: "CHR 0x0A \<notin> set l" if "l \<in> set (concat (map entry_lines es))" for l
  proof -
    from that obtain e where e: "e \<in> set es" "l \<in> set (entry_lines e)" by auto
    with assms(2) have "plain_key (fst e)" "supported_value (snd e)"
      by (simp_all add: list_all_iff)
    with e(2) show ?thesis
      using entry_lines_nl [of "fst e" "snd e" l] by simp
  qed
  have sp: "split_js CHR 0x0A (text_of_lines (concat (map entry_lines es)))
    = concat (map entry_lines es) @ [[]]"
    using nl by (rule split_text_of_lines)
  obtain s' where s': "run init_state (concat (map entry_lines es) @ [[]]) = run s' [[]]"
    "wf_state s'" "\<not> inMultilineString s'"
    "result (settle s') = foldl (\<lambda>obj p. obj_set obj (fst p) (snd p))
       (result (settle init_state)) es"
    using run_entries [OF i(1) assms(2,3), of "[[]]"] i(2,3) by blast
  have np: "''__proto__'' \<notin> fst ` set es"
    using assms(2) by (auto simp: list_all_iff plain_key_def)
  have "settle init_state = init_state"
    using i by (intro settle_clean)
  then have r: "result (settle s') = es"
    using s'(4) foldl_obj_set_entries [of "[]" es] assms(1) np i(4) by simp
  have "run s' [[]] = Inr s'"
    using s'(3) by (simp add: step_blank)
  with s' sp r show ?thesis
    by (simp add: parseYAML_def finish_settle)
qed

lemma emit_fields_plain:
  "list_all plain_field fs \<Longrightarrow> emit_fields [] fs = Inr (text_of_lines (map field_line fs))"
proof (induction fs)
  case Nil
  show ?case by (simp add: text_of_lines_def)
next
  case (Cons q fs)
  then obtain f w where q: "q = (f, JStr w)"
    by (cases q) (auto simp: plain_field_def split: jsval.splits)
  with Cons show ?case
    by (simp add: text_of_lines_Cons field_line_def kv_line_def field_text_def)
qed

lemma toYAML_entry:
  assumes "supported_value v"
  shows "toYAML_loop ((k, v) # es) 0
    = (case toYAML_loop es 0 of Inl e \<Rightarrow> Inl e
       | Inr r \<Rightarrow> Inr (text_of_lines (entry_lines (k, v)) @ r))"
  using assms
proof (cases rule: supported_value_cases)
  case (scalar x)
  then show ?thesis
    by (simp add: includes_char_def spaces_of_def text_of_lines_def kv_line_def field_text_def
        split: sum.splits)
next
  case (block x)
  have "emit_block [] k x = text_of_lines ((k @ '': |'') # map block_text_line (split_js CHR 0x0A x))"
    by (simp add: emit_block_def text_of_lines_def block_text_line_def comp_def)
  with block show ?thesis
    by (simp add: includes_char_def spaces_of_def split: sum.splits)
next
  case (reclist p fs)
  obtain f w where p: "p = (f, JStr w)"
    using reclist(3) by (cases p) (auto simp: plain_field_def split: jsval.splits)
  have fs: "emit_fields [] fs = Inr (text_of_lines (map field_line fs))"
    using reclist(3) by (intro emit_fields_plain) simp
  have "emit_item [] (JObj (p # fs))
    = Inr (text_of_lines (first_field_line p # map field_line fs))"
    using reclist(4) p fs
    by (simp add: emit_item_def entries_of_def text_of_lines_Cons first_field_line_def
        kv_line_def field_text_def)
  with reclist show ?thesis
    by (simp add: spaces_of_def text_of_lines_Cons split: sum.splits)
qed

lemma toYAML_loop_supported:
  "list_all (\<lambda>p. supported_value (snd p)) es
   \<Longrightarrow> toYAML_loop es 0 = Inr (text_of_lines (concat (map entry_lines es)))"
proof (induction es)
  case Nil
  show ?case by (simp add: text_of_lines_def)
next
  case (Cons e es)
  obtain k v where e: "e = (k, v)" by (cases e)
  with Cons.prems have "supported_value v" by simp
  then have "toYAML_loop ((k, v) # es) 0
    = (case toYAML_loop es 0 of Inl e \<Rightarrow> Inl e
       | Inr r \<Rightarrow> Inr (text_of_lines (entry_lines (k, v)) @ r))"
    by (rule toYAML_entry)
  with Cons e show ?case
    by (simp add: text_of_lines_append)
qed

lemma entries_idem: "entries (entries m) = entries m"
  using enum_order_idem [of m] by (simp add: entries_def enum_order_def)

lemma distinct_entries: "distinct (map fst m) \<Longrightarrow> distinct (map fst (entries m))"
proof -
  assume a: "distinct (map fst m)"
  have "mset (entries m) = mset m"
    by (simp add: entries_def)
  then have "mset (map fst (entries m)) = mset (map fst m)"
    by (metis mset_map)
  with a show ?thesis
    by (metis distinct_count_atmost_1 set_mset_mset)
qed

text \<open>
  Claim C1, as stated. A list of strings comes back as a list of records with the one
  field \<^verbatim>\<open>text\<close>, and a nested mapping comes back as its fields at the top level,
  without its key.
\<close>

theorem roundtrip_counterexample:
  \<open>toYAML [(''tags'', JArr [JStr ''a''])] 0 = Inr ''tags:\<newline>  - "a"\<newline>''
   \<and> parseYAML ''tags:\<newline>  - "a"\<newline>'' = Inr [(''tags'', JArr [JObj [(''text'', JStr ''a'')]])]
   \<and> toYAML [(''a'', JObj [(''b'', JStr ''c'')])] 0 = Inr ''a:\<newline>  b: "c"\<newline>''
   \<and> parseYAML ''a:\<newline>  b: "c"\<newline>'' = Inr [(''b'', JStr ''c'')]\<close>
  by (simp add: str_defs parse_defs yaml_defs obj_defs)

text \<open>
  Claim C1, amended. For a supported mapping, \<^const>\<open>toYAML\<close> returns a text,
  \<^const>\<open>parseYAML\<close> returns a mapping for that text, and this mapping has the entries of
  the first one, in the same order: the plain strings, the block strings and the
  one-record lists come back as they were.
\<close>

theorem roundtrip_supported:
  assumes "supported_mapping m"
  shows "\<exists>y obj. toYAML m 0 = Inr y \<and> parseYAML y = Inr obj \<and> entries obj = entries m"
proof -
  from assms have d: "distinct (map fst (entries m))"
    and s: "list_all (\<lambda>p. plain_key (fst p) \<and> supported_value (snd p)) (entries m)"
    and l: "layout_ok (entries m)"
    by (simp_all add: supported_mapping_def distinct_entries)
  from s have "list_all (\<lambda>p. supported_value (snd p)) (entries m)"
    by (simp add: list_all_iff)
  then have 1: "toYAML m 0 = Inr (text_of_lines (concat (map entry_lines (entries m))))"
    by (simp add: toYAML_loop_supported)
  have 2: "parseYAML (text_of_lines (concat (map entry_lines (entries m)))) = Inr (entries m)"
    using d s l by (rule parse_entries)
  from 1 2 entries_idem [of m] show ?thesis by blast
qed

theorem roundtrip_supported_witness:
  \<open>supported_mapping
     [(''title'', JStr ''Hi''), (''bio'', JStr ''Line one.\<newline>\<newline>Line two.''),
      (''stats'', JArr [JObj [(''number'', JStr ''500''), (''label'', JStr ''Workouts'')]]),
      (''name'', JStr ''Dwayne'')]
   \<and> (\<exists>y obj. toYAML
         [(''title'', JStr ''Hi''), (''bio'', JStr ''Line one.\<newline>\<newline>Line two.''),
          (''stats'', JArr [JObj [(''number'', JStr ''500''), (''label'', JStr ''Workouts'')]]),
          (''name'', JStr ''Dwayne'')] 0 = Inr y
       \<and> parseYAML y = Inr obj
       \<and> entries obj = entries
         [(''title'', JStr ''Hi''), (''bio'', JStr ''Line one.\<newline>\<newline>Line two.''),
          (''stats'', JArr [JObj [(''number'', JStr ''500''), (''label'', JStr ''Workouts'')]]),
          (''name'', JStr ''Dwayne'')])\<close>
proof -
  have i: "\<not> is_array_index ''title''" "\<not> is_array_index ''bio''" "\<not> is_array_index ''stats''"
    "\<not> is_array_index ''name''" "\<not> is_array_index ''number''" "\<not> is_array_index ''label''"
    by (simp_all add: is_array_index_def is_digit_def)
  have k: "plain_key ''title''" "plain_key ''bio''" "plain_key ''stats''" "plain_key ''name''"
    "plain_key ''number''" "plain_key ''label''"
    by (simp_all add: plain_key_def is_ws_def)
  have b: \<open>block_value ''Line one.\<newline>\<newline>Line two.''\<close>
    by (simp add: block_value_def block_line_def is_ws_def)
  have h: \<open>supported_mapping
     [(''title'', JStr ''Hi''), (''bio'', JStr ''Line one.\<newline>\<newline>Line two.''),
      (''stats'', JArr [JObj [(''number'', JStr ''500''), (''label'', JStr ''Workouts'')]]),
      (''name'', JStr ''Dwayne'')]\<close>
    by (simp add: supported_mapping_def entries_def i k b plain_value_def plain_field_def
        is_block_def is_list_def)
  show ?thesis
    using h roundtrip_supported [OF h] by simp
qed

section \<open>Quote stripping\<close>

lemma step_key_value_line_ws:
  assumes s: "\<not> inMultilineString s" "currentList s = None" "currentListItem s = None"
    and k: "plain_key k"
    and w: "list_all is_ws w0" "list_all is_ws w1" "list_all is_ws w2"
    and v: "v \<noteq> []" "\<not> is_ws (hd v)" "\<not> is_ws (last v)" "last v \<noteq> CHR ''|''"
      "strip_quotes v \<noteq> []"
  shows "step s (w0 @ k @ '':'' @ w1 @ v @ w2)
    = Inr (s\<lparr>result := obj_set (result s) k (JStr (strip_quotes v))\<rparr>)"
proof -
  let ?t = "k @ '':'' @ w1 @ v"
  have r: "\<not> is_ws (last ?t)" using v by simp
  note f = top_line_facts [OF k r]
  from k have k1: "k \<noteq> []" "\<not> is_ws (hd k)"
    by (simp_all add: plain_key_def)
  have hd_t: "hd ?t = hd k" using k1 by simp
  have t: "trim (w0 @ k @ '':'' @ w1 @ v @ w2) = ?t"
    using trim_core [of ?t w0 w2] k1 r w hd_t by simp
  have nz: "?t \<noteq> []" using k1 by simp
  have h2: "\<not> endsWith ?t ''|''"
    unfolding endsWith_bar using v by simp
  have h4: "search_S (w0 @ k @ '':'' @ w1 @ v @ w2) = int (length w0)"
    using search_S_core [of k w0 "'':'' @ w1 @ v @ w2"] k1 w by simp
  have skv: "step_key_value s ?t = s\<lparr>result := obj_set (result s) k (JStr (strip_quotes v))\<rparr>"
    using step_key_value_scalar [OF k w(2) v] .
  have sr: "step_rest s (w0 @ k @ '':'' @ w1 @ v @ w2) ?t = Inr (step_key_value s ?t)"
    unfolding step_rest_def Let_def h4
    using h2 f(3) s by simp
  show ?thesis
    unfolding step_def Let_def t
    using nz f(2) s sr skv by simp
qed

lemma step_continuation_line_ws:
  assumes s: "\<not> inMultilineString s" "currentListItem s = Some it"
    and g: "plain_key g"
    and w: "list_all is_ws w3" "4 \<le> length w3" "list_all is_ws w1" "list_all is_ws w2"
    and v: "v \<noteq> []" "\<not> is_ws (hd v)" "\<not> is_ws (last v)" "last v \<noteq> CHR ''|''"
  shows "step s (w3 @ g @ '':'' @ w1 @ v @ w2)
    = Inr (s\<lparr>currentListItem := Some (obj_set it g (JStr (strip_quotes v)))\<rparr>)"
proof -
  let ?t = "g @ '':'' @ w1 @ v"
  from g have g1: "g \<noteq> []" "\<not> is_ws (hd g)" "\<not> is_ws (last g)" "CHR '':'' \<notin> set g"
    by (simp_all add: plain_key_def)
  have r: "\<not> is_ws (last ?t)" using v by simp
  note tf = top_line_facts [OF g r]
  have hd_t: "hd ?t = hd g" using g1 by simp
  have t: "trim (w3 @ g @ '':'' @ w1 @ v @ w2) = ?t"
    using trim_core [of ?t w3 w2] g1 r w hd_t by simp
  have nz: "?t \<noteq> []" by simp
  have h2: "\<not> endsWith ?t ''|''"
    unfolding endsWith_bar using v by simp
  have h4: "search_S (w3 @ g @ '':'' @ w1 @ v @ w2) = int (length w3)"
    using search_S_core [of g w3 "'':'' @ w1 @ v @ w2"] g1 w by simp
  have h6: "split_js CHR '':'' ?t = g # split_js CHR '':'' (w1 @ v)"
    using split_js_line [of "CHR '':''" g "w1 @ v"] g1 by simp
  have h7: "join_js '':'' (split_js CHR '':'' (w1 @ v)) = w1 @ v"
    by (rule join_split)
  have h8: "trim (w1 @ v) = v"
    using trim_core [of v w1 "[]"] v w by simp
  have h9: "trim g = g"
    using trim_core [of g "[]" "[]"] g1 by simp
  have sf: "set_field s ?t = Inr (s\<lparr>currentListItem := Some (obj_set it g (JStr (strip_quotes v)))\<rparr>)"
    unfolding set_field_def h6 using s by (simp add: set_item_def h7 h8 h9)
  have sr: "step_rest s (w3 @ g @ '':'' @ w1 @ v @ w2) ?t = set_field s ?t"
    unfolding step_rest_def Let_def h4 using h2 tf(3) tf(6) s w(2) by simp
  show ?thesis
    unfolding step_def Let_def t using nz tf(2) s sr sf by simp
qed

text \<open>
  Claim C5, amended. The parser removes a quote character at the start of a value when
  there is one, and a quote character at the end when there is one, each whatever the
  other end holds; nothing else of the value changes and no escape sequence is read
  (the last conjunct, for every string \<open>x\<close>). What the value is depends on the line.
  In a \<^verbatim>\<open>key: value\<close> line (line 208, first conjunct, where what is left of the value
  is not empty), in a \<^verbatim>\<open>- field: value\<close> item (line 169, third conjunct) and in a
  line \<^verbatim>\<open>field: value\<close> indented by four or more that continues a record (line 188,
  fourth conjunct), the value is the text after the first colon without the white
  space around it: \<open>v\<close> and \<open>u\<close> below. In a plain item \<^verbatim>\<open>- value\<close> (line 179,
  second conjunct) the value is all that follows the dash and one space, up to the
  white space that ends the line: \<open>c\<close> below. It is not trimmed at its start, so
  \<open>c\<close> may start with white space, and then a quote that follows this white space
  stays.
\<close>

theorem quote_stripping:
  assumes k: "plain_key k"
    and w: "list_all is_ws w0" "list_all is_ws w1" "list_all is_ws w2"
    and nl: "CHR 0x0A \<notin> set (w0 @ w1 @ w2 @ v)"
    and v: "v \<noteq> []" "\<not> is_ws (hd v)" "\<not> is_ws (last v)" "last v \<noteq> CHR ''|''"
  shows "(strip_quotes v \<noteq> [] \<longrightarrow>
           parseYAML (w0 @ k @ '':'' @ w1 @ v @ w2) = Inr [(k, JStr (strip_quotes v))])
    \<and> (c \<noteq> [] \<and> \<not> is_ws (last c) \<and> last c \<noteq> CHR ''|'' \<and> CHR '':'' \<notin> set c
         \<and> CHR 0x0A \<notin> set c \<longrightarrow>
           parseYAML (k @ '':'' @ [CHR 0x0A] @ w0 @ ''- '' @ c @ w2)
             = Inr [(k, JArr [JObj [(''text'', JStr (strip_quotes c))]])])
    \<and> (CHR '':'' \<notin> set f \<and> CHR 0x0A \<notin> set f \<and> trim f \<noteq> ''__proto__'' \<longrightarrow>
           parseYAML (k @ '':'' @ [CHR 0x0A] @ w0 @ ''- '' @ f @ '':'' @ w1 @ v @ w2)
             = Inr [(k, JArr [JObj [(trim f, JStr (strip_quotes v))]])])
    \<and> (CHR '':'' \<notin> set f \<and> CHR 0x0A \<notin> set f \<and> trim f \<noteq> ''__proto__''
         \<and> plain_key g \<and> g \<noteq> trim f
         \<and> list_all is_ws w3 \<and> 4 \<le> length w3 \<and> CHR 0x0A \<notin> set (w3 @ u)
         \<and> u \<noteq> [] \<and> \<not> is_ws (hd u) \<and> \<not> is_ws (last u) \<and> last u \<noteq> CHR ''|'' \<longrightarrow>
           parseYAML (k @ '':'' @ [CHR 0x0A] @ w0 @ ''- '' @ f @ '':'' @ w1 @ v @ w2
                        @ [CHR 0x0A] @ w3 @ g @ '':'' @ w1 @ u @ w2)
             = Inr [(k, JArr [JObj [(trim f, JStr (strip_quotes v)), (g, JStr (strip_quotes u))]])])
    \<and> (x \<noteq> [] \<longrightarrow> strip_quotes x =
          (if is_quote (hd x)
           then (if tl x \<noteq> [] \<and> is_quote (last x) then butlast (tl x) else tl x)
           else if is_quote (last x) then butlast x else x))"
proof (intro conjI impI)
  have i: "\<not> inMultilineString init_state" "currentList init_state = None"
    "currentListItem init_state = None" "result init_state = []"
    by (simp_all add: init_state_def)
  let ?h = "init_state\<lparr>currentKey := Some k\<rparr>"
  have ih: "\<not> inMultilineString ?h" "currentList ?h = None" "currentListItem ?h = None"
    by (simp_all add: init_state_def)
  have knl: "CHR 0x0A \<notin> set (k @ '':'')"
    using plain_key_nl [OF k] by simp
  have kne: "k \<noteq> []" using k by (simp add: plain_key_def)
  have kp: "obj_set [] k z = [(k, z)]" for z
    by (rule obj_set_Nil [OF plain_key_proto [OF k]])
  have hdr: "step init_state (k @ '':'') = Inr ?h"
    using step_header_line [OF i(1,2) k] .
  {
    assume sv: "strip_quotes v \<noteq> []"
    have "CHR 0x0A \<notin> set (w0 @ k @ '':'' @ w1 @ v @ w2)"
      using knl nl by simp
    then have sp: "split_js CHR 0x0A (w0 @ k @ '':'' @ w1 @ v @ w2) = [w0 @ k @ '':'' @ w1 @ v @ w2]"
      by (rule split_js_single)
    have st: "step init_state (w0 @ k @ '':'' @ w1 @ v @ w2)
      = Inr (init_state\<lparr>result := obj_set (result init_state) k (JStr (strip_quotes v))\<rparr>)"
      using step_key_value_line_ws [OF i(1,2,3) k w v sv] .
    show "parseYAML (w0 @ k @ '':'' @ w1 @ v @ w2) = Inr [(k, JStr (strip_quotes v))]"
      unfolding parseYAML_def sp using st
      by (simp add: finish_def i kp)
  }
  {
    assume a: "c \<noteq> [] \<and> \<not> is_ws (last c) \<and> last c \<noteq> CHR ''|'' \<and> CHR '':'' \<notin> set c
         \<and> CHR 0x0A \<notin> set c"
    have n2: "CHR 0x0A \<notin> set (w0 @ ''- '' @ c @ w2)"
      using nl a by simp
    have sp: "split_js CHR 0x0A (k @ '':'' @ [CHR 0x0A] @ w0 @ ''- '' @ c @ w2)
      = [k @ '':'', w0 @ ''- '' @ c @ w2]"
      using split_js_line [OF knl, of "w0 @ ''- '' @ c @ w2"] split_js_single [OF n2] by simp
    have st: "step ?h (w0 @ ''- '' @ c @ w2)
      = Inr (?h\<lparr>currentList := Some [JObj [(''text'', JStr (strip_quotes c))]]\<rparr>)"
      using step_plain_item_line [OF ih w(1,3), of c] a by simp
    show "parseYAML (k @ '':'' @ [CHR 0x0A] @ w0 @ ''- '' @ c @ w2)
      = Inr [(k, JArr [JObj [(''text'', JStr (strip_quotes c))]])]"
      unfolding parseYAML_def sp using st
      by (simp add: hdr finish_def i truthy_key_def prop_name_def kne kp)
  }
  {
    assume a: "CHR '':'' \<notin> set f \<and> CHR 0x0A \<notin> set f \<and> trim f \<noteq> ''__proto__''"
    have n2: "CHR 0x0A \<notin> set (w0 @ ''- '' @ f @ '':'' @ w1 @ v @ w2)"
      using nl a by simp
    have sp: "split_js CHR 0x0A (k @ '':'' @ [CHR 0x0A] @ w0 @ ''- '' @ f @ '':'' @ w1 @ v @ w2)
      = [k @ '':'', w0 @ ''- '' @ f @ '':'' @ w1 @ v @ w2]"
      using split_js_line [OF knl, of "w0 @ ''- '' @ f @ '':'' @ w1 @ v @ w2"]
        split_js_single [OF n2] by simp
    have st: "step ?h (w0 @ ''- '' @ f @ '':'' @ w1 @ v @ w2)
      = Inr (?h\<lparr>currentList := Some [],
               currentListItem := Some [(trim f, JStr (strip_quotes v))]\<rparr>)"
      using step_record_item_line [OF ih _ w v, of f] a
      by (simp add: obj_set_Nil)
    show "parseYAML (k @ '':'' @ [CHR 0x0A] @ w0 @ ''- '' @ f @ '':'' @ w1 @ v @ w2)
      = Inr [(k, JArr [JObj [(trim f, JStr (strip_quotes v))]])]"
      unfolding parseYAML_def sp using st
      by (simp add: hdr finish_def push_def i truthy_key_def prop_name_def kne kp)
  }
  {
    assume a: "CHR '':'' \<notin> set f \<and> CHR 0x0A \<notin> set f \<and> trim f \<noteq> ''__proto__''
         \<and> plain_key g \<and> g \<noteq> trim f
         \<and> list_all is_ws w3 \<and> 4 \<le> length w3 \<and> CHR 0x0A \<notin> set (w3 @ u)
         \<and> u \<noteq> [] \<and> \<not> is_ws (hd u) \<and> \<not> is_ws (last u) \<and> last u \<noteq> CHR ''|''"
    then have g: "plain_key g" and w3: "list_all is_ws w3" "4 \<le> length w3"
      and u: "u \<noteq> []" "\<not> is_ws (hd u)" "\<not> is_ws (last u)" "last u \<noteq> CHR ''|''"
      by simp_all
    let ?l1 = "w0 @ ''- '' @ f @ '':'' @ w1 @ v @ w2"
    let ?l2 = "w3 @ g @ '':'' @ w1 @ u @ w2"
    let ?s1 = "?h\<lparr>currentList := Some [],
               currentListItem := Some [(trim f, JStr (strip_quotes v))]\<rparr>"
    have n1: "CHR 0x0A \<notin> set ?l1"
      using nl a by simp
    have n2: "CHR 0x0A \<notin> set ?l2"
      using nl a plain_key_nl [OF g] by simp
    have "split_js CHR 0x0A ((k @ '':'') @ CHR 0x0A # ?l1 @ CHR 0x0A # ?l2)
      = (k @ '':'') # split_js CHR 0x0A (?l1 @ CHR 0x0A # ?l2)"
      using knl by (rule split_js_line)
    moreover have "split_js CHR 0x0A (?l1 @ CHR 0x0A # ?l2) = ?l1 # split_js CHR 0x0A ?l2"
      using n1 by (rule split_js_line)
    moreover have "split_js CHR 0x0A ?l2 = [?l2]"
      using n2 by (rule split_js_single)
    ultimately have sp: "split_js CHR 0x0A (k @ '':'' @ [CHR 0x0A] @ w0 @ ''- '' @ f @ '':'' @ w1 @ v @ w2
                        @ [CHR 0x0A] @ w3 @ g @ '':'' @ w1 @ u @ w2)
      = [k @ '':'', ?l1, ?l2]"
      by simp
    have st1: "step ?h ?l1 = Inr ?s1"
      using step_record_item_line [OF ih _ w v, of f] a
      by (simp add: obj_set_Nil)
    have is1: "\<not> inMultilineString ?s1"
      "currentListItem ?s1 = Some [(trim f, JStr (strip_quotes v))]"
      by (simp_all add: init_state_def)
    have os: "obj_set [(trim f, JStr (strip_quotes v))] g (JStr (strip_quotes u))
      = [(trim f, JStr (strip_quotes v)), (g, JStr (strip_quotes u))]"
      using a plain_key_proto [OF g] by (simp add: obj_set_def)
    have st2: "step ?s1 ?l2
      = Inr (?s1\<lparr>currentListItem :=
            Some [(trim f, JStr (strip_quotes v)), (g, JStr (strip_quotes u))]\<rparr>)"
      using step_continuation_line_ws [OF is1 g w3 w(2,3) u] unfolding os .
    show "parseYAML (k @ '':'' @ [CHR 0x0A] @ w0 @ ''- '' @ f @ '':'' @ w1 @ v @ w2
                        @ [CHR 0x0A] @ w3 @ g @ '':'' @ w1 @ u @ w2)
      = Inr [(k, JArr [JObj [(trim f, JStr (strip_quotes v)), (g, JStr (strip_quotes u))]])]"
      unfolding parseYAML_def sp using st1 st2
      by (simp add: hdr finish_def push_def i truthy_key_def prop_name_def kne kp)
  }
  {
    assume "x \<noteq> []"
    then show "strip_quotes x =
          (if is_quote (hd x)
           then (if tl x \<noteq> [] \<and> is_quote (last x) then butlast (tl x) else tl x)
           else if is_quote (last x) then butlast x else x)"
      by (rule strip_quotes_cases)
  }
qed

theorem quote_stripping_witness:
  \<open>parseYAML ''key: "hello"'' = Inr [(''key'', JStr ''hello'')]
   \<and> parseYAML ''key: hello'' = Inr [(''key'', JStr ''hello'')]
   \<and> parseYAML ''key:\<newline>  - "hello"'' = Inr [(''key'', JArr [JObj [(''text'', JStr ''hello'')]])]
   \<and> parseYAML ''key:\<newline>  -  "hello"'' = Inr [(''key'', JArr [JObj [(''text'', JStr '' "hello'')]])]
   \<and> parseYAML ''key:\<newline>  - name: "hello"'' = Inr [(''key'', JArr [JObj [(''name'', JStr ''hello'')]])]
   \<and> parseYAML ''key:\<newline>  - name: "hello"\<newline>    label: "hi''
       = Inr [(''key'', JArr [JObj [(''name'', JStr ''hello''), (''label'', JStr ''hi'')]])]
   \<and> strip_quotes ''"hello'' = ''hello''\<close>
proof -
  have k: "plain_key ''key''" and g: "plain_key ''label''"
    by (simp_all add: plain_key_def is_ws_def)
  have w: "list_all is_ws []" "list_all is_ws '' ''" "list_all is_ws ''  ''" "list_all is_ws ''    ''"
    by (simp_all add: is_ws_def)
  have q: \<open>strip_quotes ''"hello"'' = ''hello''\<close> "strip_quotes ''hello'' = ''hello''"
    \<open>strip_quotes '' "hello"'' = '' "hello''\<close> \<open>strip_quotes ''"hi'' = ''hi''\<close>
    \<open>strip_quotes ''"hello'' = ''hello''\<close>
    by (simp_all add: strip_quotes_def is_quote_def)
  have t: "trim ''name'' = ''name''"
    by (simp add: trim_def is_ws_def)
  have a: \<open>parseYAML ([] @ ''key'' @ '':'' @ '' '' @ ''"hello"'' @ []) = Inr [(''key'', JStr ''hello'')]\<close>
    using quote_stripping [OF k w(1) w(2) w(1), where v = \<open>''"hello"''\<close>] q
    by (simp add: is_ws_def)
  have b: \<open>parseYAML ([] @ ''key'' @ '':'' @ '' '' @ ''hello'' @ []) = Inr [(''key'', JStr ''hello'')]\<close>
    using quote_stripping [OF k w(1) w(2) w(1), where v = \<open>''hello''\<close>] q
    by (simp add: is_ws_def)
  have c: \<open>parseYAML (''key'' @ '':'' @ [CHR 0x0A] @ ''  '' @ ''- '' @ ''"hello"'' @ [])
      = Inr [(''key'', JArr [JObj [(''text'', JStr ''hello'')]])]\<close>
    using quote_stripping [OF k w(3) w(2) w(1), where v = \<open>''"hello"''\<close> and c = \<open>''"hello"''\<close>] q
    by (simp add: is_ws_def)
  have d: \<open>parseYAML (''key'' @ '':'' @ [CHR 0x0A] @ ''  '' @ ''- '' @ '' "hello"'' @ [])
      = Inr [(''key'', JArr [JObj [(''text'', JStr '' "hello'')]])]\<close>
    using quote_stripping [OF k w(3) w(2) w(1), where v = \<open>''"hello"''\<close> and c = \<open>'' "hello"''\<close>] q
    by (simp add: is_ws_def)
  have e: \<open>parseYAML (''key'' @ '':'' @ [CHR 0x0A] @ ''  '' @ ''- '' @ ''name'' @ '':'' @ '' '' @ ''"hello"'' @ [])
      = Inr [(''key'', JArr [JObj [(''name'', JStr ''hello'')]])]
    \<and> parseYAML (''key'' @ '':'' @ [CHR 0x0A] @ ''  '' @ ''- '' @ ''name'' @ '':'' @ '' '' @ ''"hello"'' @ []
        @ [CHR 0x0A] @ ''    '' @ ''label'' @ '':'' @ '' '' @ ''"hi'' @ [])
      = Inr [(''key'', JArr [JObj [(''name'', JStr ''hello''), (''label'', JStr ''hi'')]])]
    \<and> strip_quotes ''"hello'' = ''hello''\<close>
    using quote_stripping [OF k w(3) w(2) w(1), where v = \<open>''"hello"''\<close> and f = "''name''"
        and g = "''label''" and ?w3.0 = "''    ''" and u = \<open>''"hi''\<close> and x = \<open>''"hello''\<close>] q g t
    by (simp add: is_ws_def is_quote_def)
  show ?thesis
    using a b c d e by simp
qed

text \<open>
  Claim C5, as stated: a value with a quote at one end only is left unchanged, and a
  list item loses the quotes at the two ends of its trimmed value. The value
  \<^verbatim>\<open>"hello\<close> loses its quote; the list item \<^verbatim>\<open>-  "hello"\<close>, with two spaces after
  the dash, keeps its first quote and the space before it.
\<close>

theorem quote_one_end_counterexample:
  \<open>parseYAML ''key: "hello'' = Inr [(''key'', JStr ''hello'')]
   \<and> parseYAML ''key: "hello'' \<noteq> Inr [(''key'', JStr ''"hello'')]
   \<and> parseYAML ''key:\<newline>  -  "hello"'' = Inr [(''key'', JArr [JObj [(''text'', JStr '' "hello'')]])]\<close>
  by (simp add: str_defs parse_defs)

section \<open>Key order\<close>


subsection \<open>Keys are appended\<close>




lemma push_same:
  "push s v = Inr s' \<Longrightarrow> result s' = result s \<and> currentKey s' = currentKey s
     \<and> inMultilineString s' = inMultilineString s \<and> indentLevel s' = indentLevel s
     \<and> currentListItem s' = currentListItem s \<and> currentList s' \<noteq> None"
  by (auto simp: push_def split: option.splits)















subsection \<open>The line that stores a key\<close>

















subsection \<open>Entries in source order\<close>
















subsection \<open>The order in which toYAML writes\<close>







section \<open>Frontmatter: the fallback\<close>

lemma find_sub_None: "find_sub p s = None \<longleftrightarrow> (\<forall>a b. s \<noteq> a @ p @ b)"
proof (induction s)
  case Nil
  show ?case by simp
next
  case (Cons c cs)
  show ?case
  proof (cases "take (length p) (c # cs) = p")
    case True
    then have "c # cs = [] @ p @ drop (length p) (c # cs)"
      by (metis append_Nil append_take_drop_id)
    with True show ?thesis by (simp del: append_Nil) blast
  next
    case False
    have "(\<forall>a b. c # cs \<noteq> a @ p @ b) \<longleftrightarrow> (\<forall>a b. cs \<noteq> a @ p @ b)"
    proof
      assume h: "\<forall>a b. c # cs \<noteq> a @ p @ b"
      show "\<forall>a b. cs \<noteq> a @ p @ b"
      proof (intro allI notI)
        fix a b assume "cs = a @ p @ b"
        then have "c # cs = (c # a) @ p @ b" by simp
        with h show False by blast
      qed
    next
      assume h: "\<forall>a b. cs \<noteq> a @ p @ b"
      show "\<forall>a b. c # cs \<noteq> a @ p @ b"
      proof (intro allI notI)
        fix a b assume e: "c # cs = a @ p @ b"
        show False
        proof (cases a)
          case Nil
          with e have "take (length p) (c # cs) = p" by simp
          with False show False by simp
        next
          case (Cons x a')
          with e have "cs = a' @ p @ b" by simp
          with h show False by blast
        qed
      qed
    qed
    moreover have "find_sub p (c # cs) = None \<longleftrightarrow> find_sub p cs = None"
      using False by (simp split: option.splits)
    ultimately show ?thesis using Cons by simp
  qed
qed

lemma startsWith_iff: "startsWith s p \<longleftrightarrow> (\<exists>r. s = p @ r)"
  unfolding startsWith_def
  by (metis append_eq_conv_conj append_take_drop_id)

lemma match_frontmatter_None:
  "match_frontmatter text = None \<longleftrightarrow>
     \<not> (\<exists>m b. text = ''---'' @ [CHR 0x0A] @ m @ [CHR 0x0A] @ ''---'' @ [CHR 0x0A] @ b)"
proof (cases "startsWith text (''---'' @ [CHR 0x0A])")
  case False
  then show ?thesis
    by (auto simp: match_frontmatter_def startsWith_iff)
next
  case True
  then obtain r where r: "text = ''---'' @ [CHR 0x0A] @ r"
    by (auto simp: startsWith_iff)
  then have d: "drop 4 text = r" by simp
  show ?thesis
    using True by (simp add: match_frontmatter_def d find_sub_None) (simp add: r)
qed

text \<open>
  Claim C7. A text that is not an opening delimiter line, a metadata block, a closing
  delimiter line with its newline and a body is returned unchanged as the body, with
  empty metadata, and no error is raised.
\<close>

theorem parseFrontmatter_fallback:
  "\<not> (\<exists>m b. text = ''---'' @ [CHR 0x0A] @ m @ [CHR 0x0A] @ ''---'' @ [CHR 0x0A] @ b)
   \<Longrightarrow> parseFrontmatter text = Inr \<lparr> data = [], content = text \<rparr>"
proof -
  assume h: "\<not> (\<exists>m b. text = ''---'' @ [CHR 0x0A] @ m @ [CHR 0x0A] @ ''---'' @ [CHR 0x0A] @ b)"
  have "match_frontmatter text = None"
    unfolding match_frontmatter_None by (rule h)
  then show ?thesis
    by (simp add: parseFrontmatter_def)
qed

theorem parseFrontmatter_fallback_witness:
  "\<not> (\<exists>m b. ''no delimiters here'' = ''---'' @ [CHR 0x0A] @ m @ [CHR 0x0A] @ ''---'' @ [CHR 0x0A] @ b)
   \<and> parseFrontmatter ''no delimiters here'' = Inr \<lparr> data = [], content = ''no delimiters here'' \<rparr>"
proof -
  have h: "\<not> (\<exists>m b. ''no delimiters here'' = ''---'' @ [CHR 0x0A] @ m @ [CHR 0x0A] @ ''---'' @ [CHR 0x0A] @ b)"
    by simp
  show ?thesis
    using h parseFrontmatter_fallback [OF h] by simp
qed

text \<open>
  Claim C10, as stated: every text that begins with the opening delimiter line and ends
  with \<^verbatim>\<open>"\n---"\<close> gives the fallback. It fails when the metadata block itself holds
  a delimiter line: the match ends at that line.
\<close>

theorem parseFrontmatter_closing_counterexample:
  \<open>parseFrontmatter ''---\<newline>a: b\<newline>---\<newline>foo\<newline>---''
     = Inr \<lparr> data = [(''a'', JStr ''b'')], content = ''foo\<newline>---'' \<rparr>\<close>
  by (simp add: parseFrontmatter_def match_frontmatter_def str_defs parse_defs)

text \<open>
  Claim C10, amended. A text that begins with the opening delimiter line and ends with
  \<^verbatim>\<open>"\n---"\<close>, and in which no \<^verbatim>\<open>"\n---\n"\<close> occurs after the opening line,
  gives the fallback: the metadata is parsed only when a closing delimiter line is
  followed by a newline.
\<close>

theorem parseFrontmatter_closing_newline:
  "\<not> (\<exists>a b. m @ [CHR 0x0A] @ ''---'' = a @ [CHR 0x0A] @ ''---'' @ [CHR 0x0A] @ b)
   \<Longrightarrow> parseFrontmatter (''---'' @ [CHR 0x0A] @ m @ [CHR 0x0A] @ ''---'')
       = Inr \<lparr> data = [], content = ''---'' @ [CHR 0x0A] @ m @ [CHR 0x0A] @ ''---'' \<rparr>"
proof -
  assume h: "\<not> (\<exists>a b. m @ [CHR 0x0A] @ ''---'' = a @ [CHR 0x0A] @ ''---'' @ [CHR 0x0A] @ b)"
  have "match_frontmatter (''---'' @ [CHR 0x0A] @ m @ [CHR 0x0A] @ ''---'') = None"
    unfolding match_frontmatter_None using h by simp
  then show ?thesis
    by (simp add: parseFrontmatter_def)
qed

theorem parseFrontmatter_closing_newline_witness:
  \<open>\<not> (\<exists>a b. ''a: b'' @ [CHR 0x0A] @ ''---'' = a @ [CHR 0x0A] @ ''---'' @ [CHR 0x0A] @ b)
   \<and> parseFrontmatter ''---\<newline>a: b\<newline>---''
       = Inr \<lparr> data = [], content = ''---\<newline>a: b\<newline>---'' \<rparr>\<close>
proof -
  have "find_sub ([CHR 0x0A] @ ''---'' @ [CHR 0x0A]) (''a: b'' @ [CHR 0x0A] @ ''---'') = None"
    by simp
  then have h: "\<not> (\<exists>a b. ''a: b'' @ [CHR 0x0A] @ ''---'' = a @ [CHR 0x0A] @ ''---'' @ [CHR 0x0A] @ b)"
    unfolding find_sub_None by simp
  show ?thesis
    using h parseFrontmatter_closing_newline [OF h] by simp
qed

end
